theory Spec2Isabelle
  imports
    Complex_Main
    "HOL-Library.Multiset"
    "HOL-Library.Char_ord"
    "HOL-Library.List_Lexorder"
    "HOL-Library.Signed_Division"
begin

section \<open>StudentTracker: data model\<close>

text \<open>
  The embedding follows \<^verbatim>\<open>src/main.cpp\<close>. A C string is modelled by its contents
  before the terminating NUL, as a \<^typ>\<open>string\<close>; a \<^verbatim>\<open>Student*\<close> in a snapshot array
  is modelled by the record it points to (the sorts never write to a student, they only
  move pointers); a \<^verbatim>\<open>double\<close> mark is modelled by a \<^typ>\<open>real\<close> (finite, non-NaN
  values: only the comparisons \<^verbatim>\<open><\<close> and \<^verbatim>\<open>>\<close> are used on marks); a C \<^verbatim>\<open>int\<close> index
  is an \<^typ>\<open>int\<close> (arrays of more than \<open>2^30\<close> pointers are outside the model).
  Every \<^verbatim>\<open>throw\<close> is a value \<open>Inl e\<close> of a sum type, every array read is bounds-checked
  and yields \<open>None\<close> when it leaves the array. String arguments are non-null.
\<close>

datatype StudentException =
    BufferOverflowException
  | NoSecondNameException
  | InvalidSecondNameException
  | InvalidRollException
  | RollNotFoundException

datatype Branch = BR_CSE | BR_ECE

datatype MarkComponent = MC_ASSIGN | MC_MID | MC_LAB | MC_FINAL

record Marks =
  assignment :: real
  midterm :: real
  lab :: real
  finalexam :: real

record Student =
  name :: string
  roll :: string
  branch :: Branch
  marks :: Marks
  level :: int

abbreviation getName :: "Student \<Rightarrow> string" where
  "getName s \<equiv> name s"

abbreviation getRoll :: "Student \<Rightarrow> string" where
  "getRoll s \<equiv> roll s"

abbreviation getMarks :: "Student \<Rightarrow> Marks" where
  "getMarks s \<equiv> marks s"

definition NAME_MAX :: int where
  "NAME_MAX = 64"

definition ROLL_MAX :: int where
  "ROLL_MAX = 32"

subsection \<open>Character classes of the C locale\<close>

text \<open>
  \<^verbatim>\<open>isalpha\<close>, \<^verbatim>\<open>isalnum\<close>, \<^verbatim>\<open>isspace\<close> and \<^verbatim>\<open>tolower\<close> on an \<^verbatim>\<open>unsigned char\<close>
  in the default "C" locale (the program never calls \<^verbatim>\<open>setlocale\<close>).
\<close>

definition code :: "char \<Rightarrow> nat" where
  "code c = of_char c"

definition isupper_c :: "char \<Rightarrow> bool" where
  "isupper_c c = (65 \<le> code c \<and> code c \<le> 90)"

definition islower_c :: "char \<Rightarrow> bool" where
  "islower_c c = (97 \<le> code c \<and> code c \<le> 122)"

definition isalpha_c :: "char \<Rightarrow> bool" where
  "isalpha_c c = (isupper_c c \<or> islower_c c)"

definition isdigit_c :: "char \<Rightarrow> bool" where
  "isdigit_c c = (48 \<le> code c \<and> code c \<le> 57)"

definition isalnum_c :: "char \<Rightarrow> bool" where
  "isalnum_c c = (isalpha_c c \<or> isdigit_c c)"

definition isspace_c :: "char \<Rightarrow> bool" where
  "isspace_c c = (code c = 32 \<or> (9 \<le> code c \<and> code c \<le> 13))"

definition tolower_c :: "char \<Rightarrow> char" where
  "tolower_c c = (if isupper_c c then char_of (code c + 32) else c)"

subsection \<open>Helper functions\<close>

definition isValidNameChar :: "char \<Rightarrow> bool" where
  "isValidNameChar c = (isalpha_c c \<or> c = CHR '' '' \<or> c = CHR ''-'')"

definition isValidRollChar :: "char \<Rightarrow> bool" where
  "isValidRollChar c = (isalnum_c c \<or> c = CHR ''/'' \<or> c = CHR ''-'')"

text \<open>
  \<^verbatim>\<open>safeStrCpy(dst, src, maxlen)\<close>: the result is the new contents of \<^verbatim>\<open>dst\<close>, or the
  exception thrown before \<^verbatim>\<open>strcpy\<close> is reached.
\<close>

definition safeStrCpy :: "string \<Rightarrow> string \<Rightarrow> int \<Rightarrow> StudentException + string" where
  "safeStrCpy dst src maxlen =
     (let len = int (length src) in
      if len \<ge> maxlen then Inl BufferOverflowException else Inr src)"

subsection \<open>validateName\<close>

text \<open>
  The first loop of \<^verbatim>\<open>validateName\<close>: it rejects the first character that is not a
  valid name character and counts the words. The state is \<^verbatim>\<open>(words, inword)\<close>;
  \<^verbatim>\<open>lastWordStart\<close> is written but never read.
\<close>

fun countLoop :: "string \<Rightarrow> int \<Rightarrow> bool \<Rightarrow> StudentException + int" where
  "countLoop [] words inword = Inr words"
| "countLoop (c # cs) words inword =
     (if \<not> isValidNameChar c then Inl InvalidSecondNameException
      else if \<not> isspace_c c \<and> \<not> inword then countLoop cs (words + 1) True
      else if isspace_c c then countLoop cs words False
      else countLoop cs words inword)"

text \<open>
  The inner \<^verbatim>\<open>while (j < n && !isspace(name[j]))\<close> of the second loop, on the rest of
  the string from position \<^verbatim>\<open>j\<close>.
\<close>

fun checkWord :: "string \<Rightarrow> StudentException + unit" where
  "checkWord [] = Inr ()"
| "checkWord (c # cs) =
     (if isspace_c c then Inr ()
      else if \<not> isalpha_c c \<and> c \<noteq> CHR ''-'' then Inl InvalidSecondNameException
      else checkWord cs)"

text \<open>
  The second loop: it finds the start of the second word, checks that word and breaks.
  The state is \<^verbatim>\<open>(wordCount, inword)\<close>; \<^verbatim>\<open>wordStart\<close> is written but never read.
\<close>

fun secondLoop :: "string \<Rightarrow> int \<Rightarrow> bool \<Rightarrow> StudentException + unit" where
  "secondLoop [] wordCount inword = Inr ()"
| "secondLoop (c # cs) wordCount inword =
     (if \<not> isspace_c c \<and> \<not> inword then
        (if wordCount + 1 = 2 then checkWord (c # cs)
         else secondLoop cs (wordCount + 1) True)
      else if isspace_c c then secondLoop cs wordCount False
      else secondLoop cs wordCount inword)"

definition validateName :: "string \<Rightarrow> StudentException + unit" where
  "validateName nm =
     (if length nm = 0 then Inl NoSecondNameException
      else case countLoop nm 0 False of
        Inl e \<Rightarrow> Inl e
      | Inr words \<Rightarrow>
          if words < 2 then Inl NoSecondNameException
          else secondLoop nm 0 False)"

subsection \<open>validateRoll\<close>

fun rollLoop :: "string \<Rightarrow> StudentException + unit" where
  "rollLoop [] = Inr ()"
| "rollLoop (c # cs) =
     (if \<not> isValidRollChar c then Inl InvalidRollException else rollLoop cs)"

definition validateRoll :: "string \<Rightarrow> StudentException + unit" where
  "validateRoll r =
     (if length r = 0 then Inl InvalidRollException else rollLoop r)"

subsection \<open>Student setters\<close>

text \<open>
  A setter mutates the object in place and may throw. The model returns the object as
  it is when the call ends, together with the exception that left the call, if any.
\<close>

definition setName :: "Student \<Rightarrow> string \<Rightarrow> Student \<times> StudentException option" where
  "setName s nm =
     (case validateName nm of
        Inl e \<Rightarrow> (s, Some e)
      | Inr _ \<Rightarrow>
          (case safeStrCpy (name s) nm NAME_MAX of
             Inl e \<Rightarrow> (s, Some e)
           | Inr buf \<Rightarrow> (s\<lparr>name := buf\<rparr>, None)))"

definition setRoll :: "Student \<Rightarrow> string \<Rightarrow> Student \<times> StudentException option" where
  "setRoll s r =
     (case validateRoll r of
        Inl e \<Rightarrow> (s, Some e)
      | Inr _ \<Rightarrow>
          (case safeStrCpy (roll s) r ROLL_MAX of
             Inl e \<Rightarrow> (s, Some e)
           | Inr buf \<Rightarrow> (s\<lparr>roll := buf\<rparr>, None)))"

subsection \<open>strcmp\<close>

text \<open>
  \<^verbatim>\<open>strcmp\<close> compares the strings as sequences of \<^verbatim>\<open>unsigned char\<close>; the C standard
  fixes only the sign of the result.
\<close>

fun strcmp :: "string \<Rightarrow> string \<Rightarrow> int" where
  "strcmp [] [] = 0"
| "strcmp [] (b # bs) = - 1"
| "strcmp (a # as) [] = 1"
| "strcmp (a # as) (b # bs) =
     (if a = b then strcmp as bs
      else if code a < code b then - 1 else 1)"

text \<open>
  With the bytewise order on characters and the lexicographic order on strings,
  the sign of \<^verbatim>\<open>strcmp\<close> is the comparison of the two strings.
\<close>

lemma code_less: "code a < code b \<longleftrightarrow> a < b"
  by (simp add: code_def less_char_def)

lemma strcmp_eq: "strcmp a b = 0 \<longleftrightarrow> a = b"
  by (induction a b rule: strcmp.induct) auto

lemma strcmp_lt: "strcmp a b < 0 \<longleftrightarrow> a < b"
  by (induction a b rule: strcmp.induct) (auto simp: code_less)

lemma strcmp_gt: "strcmp a b > 0 \<longleftrightarrow> b < a"
  by (induction a b rule: strcmp.induct) (auto simp: code_less)

lemma strcmp_le: "strcmp a b \<le> 0 \<longleftrightarrow> a \<le> b"
  using strcmp_gt [of a b] by auto

subsection \<open>Course: the singly linked list of students\<close>

text \<open>
  The linked list is the list of its students from \<^verbatim>\<open>head\<close> on; the field \<^verbatim>\<open>count\<close>
  (here \<open>count_c\<close>) is kept as the code keeps it.
\<close>

record Course =
  nodes :: "Student list"
  count_c :: int

definition emptyCourse :: Course where
  "emptyCourse = \<lparr>nodes = [], count_c = 0\<rparr>"

text \<open>\<^verbatim>\<open>operator+=\<close>: the new node becomes the head.\<close>

definition add :: "Course \<Rightarrow> Student \<Rightarrow> Course" where
  "add c s = c\<lparr>nodes := s # nodes c, count_c := count_c c + 1\<rparr>"

fun findNode :: "Student list \<Rightarrow> string \<Rightarrow> Student option" where
  "findNode [] r = None"
| "findNode (s # rest) r =
     (if strcmp (getRoll s) r = 0 then Some s else findNode rest r)"

definition findByRoll :: "Course \<Rightarrow> string \<Rightarrow> Student option" where
  "findByRoll c r = findNode (nodes c) r"

text \<open>\<^verbatim>\<open>operator()\<close>: lookup that throws when the roll is absent.\<close>

definition lookup :: "Course \<Rightarrow> string \<Rightarrow> StudentException + Student" where
  "lookup c r =
     (case findByRoll c r of None \<Rightarrow> Inl RollNotFoundException | Some s \<Rightarrow> Inr s)"

text \<open>\<^verbatim>\<open>size()\<close> and \<^verbatim>\<open>exportArray()\<close>; the \<^verbatim>\<open>nullptr\<close> of an empty course is the empty array.\<close>

definition size_c :: "Course \<Rightarrow> int" where
  "size_c c = count_c c"

definition exportArray :: "Course \<Rightarrow> Student list" where
  "exportArray c = (if count_c c = 0 then [] else nodes c)"

text \<open>A course built from the empty one by adding the students of a list in order.\<close>

definition addAll :: "Course \<Rightarrow> Student list \<Rightarrow> Course" where
  "addAll c ss = foldl add c ss"

subsection \<open>The trie for name sorting\<close>

definition TRIE_ALPHABET :: nat where
  "TRIE_ALPHABET = 27"

text \<open>
  \<^verbatim>\<open>chIndex\<close> returns an \<^verbatim>\<open>int\<close> between 0 and 26 that is only used as an index into
  \<^verbatim>\<open>children\<close>; the model returns it as a \<^typ>\<open>nat\<close>.
\<close>

definition chIndex :: "char \<Rightarrow> nat" where
  "chIndex c =
     (if c = CHR '' '' then 26
      else let c' = tolower_c c in
        if code (CHR ''a'') \<le> code c' \<and> code c' \<le> code (CHR ''z'')
        then code c' - code (CHR ''a'')
        else 26)"

text \<open>
  A \<^verbatim>\<open>TrieNode\<close> owns its children: the array \<^verbatim>\<open>children[TRIE_ALPHABET]\<close> is a list of
  optional nodes (\<open>None\<close> for \<^verbatim>\<open>nullptr\<close>), the growable array \<^verbatim>\<open>students\<close> with its
  \<^verbatim>\<open>studCount\<close> entries is a list (\<^verbatim>\<open>studCap\<close> only drives the reallocation).
\<close>

datatype TrieNode = TrieNode (children: "TrieNode option list") (students: "Student list")

definition newTrieNode :: TrieNode where
  "newTrieNode = TrieNode (replicate TRIE_ALPHABET None) []"

fun addStudent :: "TrieNode \<Rightarrow> Student \<Rightarrow> TrieNode" where
  "addStudent (TrieNode ch st) s = TrieNode ch (st @ [s])"

text \<open>
  \<^verbatim>\<open>NameTrie::insert\<close> walks down from the root along the characters of the name,
  creating the missing children, and adds the student at the node it reaches;
  \<open>insertFrom cur cs s\<close> is the walk from \<^verbatim>\<open>cur\<close> with the characters \<open>cs\<close> left.
\<close>

fun insertFrom :: "TrieNode \<Rightarrow> string \<Rightarrow> Student \<Rightarrow> TrieNode" where
  "insertFrom cur [] s = addStudent cur s"
| "insertFrom (TrieNode ch st) (c # cs) s =
     (let idx = chIndex c;
          child = (case ch ! idx of None \<Rightarrow> newTrieNode | Some n \<Rightarrow> n)
      in TrieNode (ch[idx := Some (insertFrom child cs s)]) st)"

definition trie_insert :: "TrieNode \<Rightarrow> Student \<Rightarrow> TrieNode" where
  "trie_insert rt s = insertFrom rt (getName s) s"

text \<open>
  \<^verbatim>\<open>traverseCollect(node, out, idx)\<close>: \<open>out\<close> is the part \<^verbatim>\<open>out[0..idx)\<close> written so far,
  and the result is that part after the call.
\<close>

fun traverseCollect :: "TrieNode \<Rightarrow> Student list \<Rightarrow> Student list" where
  "traverseCollect (TrieNode ch st) out =
     foldl (\<lambda>acc c. case c of None \<Rightarrow> acc | Some n \<Rightarrow> traverseCollect n acc) (out @ st) ch"

definition collectSorted :: "TrieNode \<Rightarrow> Student list" where
  "collectSorted rt = traverseCollect rt []"

text \<open>
  \<^verbatim>\<open>sortByNameUsingTrie\<close>: the \<^verbatim>\<open>nullptr\<close> returned for an empty course is the empty list.
  The loop inserts \<^verbatim>\<open>arr[0..n)\<close> with \<^verbatim>\<open>n = c.size()\<close>; in every course that the class
  can reach, \<^verbatim>\<open>count\<close> is the length of the list, the array has \<^verbatim>\<open>n\<close> entries and the
  traversal writes exactly \<^verbatim>\<open>n\<close> entries of \<^verbatim>\<open>out\<close>.
\<close>

definition sortByNameUsingTrie :: "Course \<Rightarrow> Student list" where
  "sortByNameUsingTrie c =
     (let n = size_c c in
      if n = 0 then []
      else let arr = exportArray c;
               trie = foldl trie_insert newTrieNode (take (nat n) arr)
           in collectSorted trie)"

subsection \<open>Sorting utilities\<close>

fun getComponent :: "Student \<Rightarrow> MarkComponent \<Rightarrow> real" where
  "getComponent s MC_ASSIGN = assignment (getMarks s)"
| "getComponent s MC_MID = midterm (getMarks s)"
| "getComponent s MC_LAB = lab (getMarks s)"
| "getComponent s MC_FINAL = finalexam (getMarks s)"

definition cmpByRollPtr :: "Student \<Rightarrow> Student \<Rightarrow> int" where
  "cmpByRollPtr a b = strcmp (getRoll a) (getRoll b)"

definition cmpByMarksPtrFactory :: "Student \<Rightarrow> Student \<Rightarrow> MarkComponent \<Rightarrow> int" where
  "cmpByMarksPtrFactory a b mc =
     (let da = getComponent a mc; db = getComponent b mc in
      if da < db then - 1
      else if da > db then 1
      else strcmp (getRoll a) (getRoll b))"

text \<open>
  An array read \<^verbatim>\<open>arr[i]\<close>: \<open>None\<close> when the index is outside the array (undefined
  behaviour in C).
\<close>

definition readAt :: "'a list \<Rightarrow> int \<Rightarrow> 'a option" where
  "readAt arr i = (if 0 \<le> i \<and> i < int (length arr) then Some (arr ! nat i) else None)"

definition quickSwap :: "'a list \<Rightarrow> int \<Rightarrow> int \<Rightarrow> 'a list" where
  "quickSwap arr i j = (let t = arr ! nat i in (arr[nat i := arr ! nat j])[nat j := t])"

text \<open>
  The two inner loops of the partition step, \<^verbatim>\<open>while (arr[i] < pivot) i++\<close> and
  \<^verbatim>\<open>while (arr[j] > pivot) j--\<close>: \<open>bel\<close> and \<open>abv\<close> are the two tests against the
  pivot, and the result is the index at which the loop stops.
\<close>

function scanUp :: "('a \<Rightarrow> bool) \<Rightarrow> 'a list \<Rightarrow> int \<Rightarrow> int option" where
  "scanUp bel arr i =
     (case readAt arr i of
        None \<Rightarrow> None
      | Some x \<Rightarrow> if bel x then scanUp bel arr (i + 1) else Some i)"
  by pat_completeness auto
termination
  by (relation "measure (\<lambda>(bel, arr, i). nat (int (length arr) - i))")
     (auto simp: readAt_def split: if_splits)

function scanDown :: "('a \<Rightarrow> bool) \<Rightarrow> 'a list \<Rightarrow> int \<Rightarrow> int option" where
  "scanDown abv arr j =
     (case readAt arr j of
        None \<Rightarrow> None
      | Some x \<Rightarrow> if abv x then scanDown abv arr (j - 1) else Some j)"
  by pat_completeness auto
termination
  by (relation "measure (\<lambda>(abv, arr, j). nat (j + 1))")
     (auto simp: readAt_def split: if_splits)

declare scanUp.simps [simp del] scanDown.simps [simp del]

lemma scanUp_Some:
  "scanUp P arr i = Some i' \<Longrightarrow>
     i \<le> i' \<and> 0 \<le> i \<and> i' < int (length arr) \<and> \<not> P (arr ! nat i') \<and>
     (\<forall>k. i \<le> k \<and> k < i' \<longrightarrow> P (arr ! nat k))"
proof (induction P arr i rule: scanUp.induct)
  case (1 bel arr i)
  from "1.prems" have r: "0 \<le> i" "i < int (length arr)"
    by (auto simp: scanUp.simps [of bel arr i] readAt_def split: if_splits)
  show ?case
  proof (cases "bel (arr ! nat i)")
    case True
    then have "scanUp bel arr (i + 1) = Some i'"
      using "1.prems" r by (simp add: scanUp.simps [of bel arr i] readAt_def)
    from "1.IH" [OF _ True this] r
    have ih: "i + 1 \<le> i'" "i' < int (length arr)" "\<not> bel (arr ! nat i')"
      "\<forall>k. i + 1 \<le> k \<and> k < i' \<longrightarrow> bel (arr ! nat k)"
      by (simp_all add: readAt_def)
    have "bel (arr ! nat k)" if "i \<le> k" "k < i'" for k
      using that ih(4) True by (cases "k = i") auto
    then show ?thesis using ih r by auto
  next
    case False
    then have "i' = i"
      using "1.prems" r by (simp add: scanUp.simps [of bel arr i] readAt_def)
    then show ?thesis using False r by auto
  qed
qed

lemma scanDown_Some:
  "scanDown P arr j = Some j' \<Longrightarrow>
     j' \<le> j \<and> 0 \<le> j' \<and> j < int (length arr) \<and> \<not> P (arr ! nat j') \<and>
     (\<forall>k. j' < k \<and> k \<le> j \<longrightarrow> P (arr ! nat k))"
proof (induction P arr j rule: scanDown.induct)
  case (1 abv arr j)
  from "1.prems" have r: "0 \<le> j" "j < int (length arr)"
    by (auto simp: scanDown.simps [of abv arr j] readAt_def split: if_splits)
  show ?case
  proof (cases "abv (arr ! nat j)")
    case True
    then have "scanDown abv arr (j - 1) = Some j'"
      using "1.prems" r by (simp add: scanDown.simps [of abv arr j] readAt_def)
    from "1.IH" [OF _ True this] r
    have ih: "j' \<le> j - 1" "0 \<le> j'" "\<not> abv (arr ! nat j')"
      "\<forall>k. j' < k \<and> k \<le> j - 1 \<longrightarrow> abv (arr ! nat k)"
      by (simp_all add: readAt_def)
    have "abv (arr ! nat k)" if "j' < k" "k \<le> j" for k
      using that ih(4) True by (cases "k = j") auto
    then show ?thesis using ih r by auto
  next
    case False
    then have "j' = j"
      using "1.prems" r by (simp add: scanDown.simps [of abv arr j] readAt_def)
    then show ?thesis using False r by auto
  qed
qed

lemma scanUp_stops:
  "0 \<le> i \<Longrightarrow> i \<le> m \<Longrightarrow> m < int (length arr) \<Longrightarrow> \<not> P (arr ! nat m) \<Longrightarrow>
   \<exists>i'. scanUp P arr i = Some i' \<and> i' \<le> m"
proof (induction P arr i rule: scanUp.induct)
  case (1 bel arr i)
  have r: "readAt arr i = Some (arr ! nat i)" using "1.prems" by (simp add: readAt_def)
  show ?case
  proof (cases "bel (arr ! nat i)")
    case True
    then have "i \<noteq> m" using "1.prems" by auto
    then have "\<exists>i'. scanUp bel arr (i + 1) = Some i' \<and> i' \<le> m"
      using "1.IH" [OF r True] "1.prems" by simp
    then show ?thesis using True r by (simp add: scanUp.simps [of bel arr i])
  next
    case False
    then show ?thesis using r "1.prems" by (simp add: scanUp.simps [of bel arr i])
  qed
qed

lemma scanDown_stops:
  "0 \<le> m \<Longrightarrow> m \<le> j \<Longrightarrow> j < int (length arr) \<Longrightarrow> \<not> P (arr ! nat m) \<Longrightarrow>
   \<exists>j'. scanDown P arr j = Some j' \<and> m \<le> j'"
proof (induction P arr j rule: scanDown.induct)
  case (1 abv arr j)
  have r: "readAt arr j = Some (arr ! nat j)" using "1.prems" by (simp add: readAt_def)
  show ?case
  proof (cases "abv (arr ! nat j)")
    case True
    then have "j \<noteq> m" using "1.prems" by auto
    then have "\<exists>j'. scanDown abv arr (j - 1) = Some j' \<and> m \<le> j'"
      using "1.IH" [OF r True] "1.prems" by simp
    then show ?thesis using True r by (simp add: scanDown.simps [of abv arr j])
  next
    case False
    then show ?thesis using r "1.prems" by (simp add: scanDown.simps [of abv arr j])
  qed
qed

text \<open>
  The loop \<^verbatim>\<open>while (i <= j)\<close> of \<^verbatim>\<open>quickSortRoll\<close> and \<^verbatim>\<open>quickSortMarks\<close> (the two
  differ only in the tests against the pivot); the result is the array and the two
  indices when the loop ends.
\<close>

function partitionLoop ::
  "('a \<Rightarrow> bool) \<Rightarrow> ('a \<Rightarrow> bool) \<Rightarrow> 'a list \<Rightarrow> int \<Rightarrow> int \<Rightarrow> ('a list \<times> int \<times> int) option" where
  "partitionLoop bel abv arr i j =
     (if i \<le> j then
        (case scanUp bel arr i of
           None \<Rightarrow> None
         | Some i' \<Rightarrow>
             (case scanDown abv arr j of
                None \<Rightarrow> None
              | Some j' \<Rightarrow>
                  if i' \<le> j'
                  then partitionLoop bel abv (quickSwap arr i' j') (i' + 1) (j' - 1)
                  else partitionLoop bel abv arr i' j'))
      else Some (arr, i, j))"
  by pat_completeness auto
termination
proof (relation "measure (\<lambda>(bel, abv, arr, i, j). nat (j - i + 1))", goal_cases)
  case 1
  show ?case by simp
next
  case (2 bel abv arr i j i' j')
  from scanUp_Some [OF 2(2)] scanDown_Some [OF 2(3)] 2(1,4) show ?case by simp
next
  case (3 bel abv arr i j i' j')
  from 3(1,4) show ?case by simp
qed

declare partitionLoop.simps [simp del]


lemma length_quickSwap [simp]: "length (quickSwap arr i j) = length arr"
  by (simp add: quickSwap_def)

lemma mset_quickSwap:
  "0 \<le> i \<Longrightarrow> i < int (length arr) \<Longrightarrow> 0 \<le> j \<Longrightarrow> j < int (length arr) \<Longrightarrow>
   mset (quickSwap arr i j) = mset arr"
  using mset_swap [of "nat j" arr "nat i"] by (simp add: quickSwap_def)

lemma nth_quickSwap:
  "0 \<le> i \<Longrightarrow> i < int (length arr) \<Longrightarrow> 0 \<le> j \<Longrightarrow> j < int (length arr) \<Longrightarrow>
   n < length arr \<Longrightarrow>
   quickSwap arr i j ! n =
     (if int n = j then arr ! nat i else if int n = i then arr ! nat j else arr ! n)"
  by (auto simp: quickSwap_def nth_list_update)

lemma partition_frame:
  "partitionLoop bel abv arr i j = Some (arr', i', j') \<Longrightarrow>
   i \<le> i' \<and> j' \<le> j \<and> length arr' = length arr \<and> mset arr' = mset arr \<and>
   (\<forall>n. int n < i \<or> j < int n \<longrightarrow> arr' ! n = arr ! n)"
proof (induction bel abv arr i j rule: partitionLoop.induct)
  case (1 bel abv arr i j)
  show ?case
  proof (cases "i \<le> j")
    case False
    then show ?thesis using "1.prems" by (simp add: partitionLoop.simps [of bel abv arr i j])
  next
    case True
    from "1.prems" True obtain i1 where u: "scanUp bel arr i = Some i1"
      by (auto simp: partitionLoop.simps [of bel abv arr i j] split: option.splits)
    from "1.prems" True u obtain j1 where d: "scanDown abv arr j = Some j1"
      by (auto simp: partitionLoop.simps [of bel abv arr i j] split: option.splits)
    note su = scanUp_Some [OF u] and sd = scanDown_Some [OF d]
    show ?thesis
    proof (cases "i1 \<le> j1")
      case sw: True
      then have rec: "partitionLoop bel abv (quickSwap arr i1 j1) (i1 + 1) (j1 - 1) = Some (arr', i', j')"
        using "1.prems" True u d by (simp add: partitionLoop.simps [of bel abv arr i j])
      note ih = "1.IH"(1) [OF True u d sw rec]
      have b: "0 \<le> i1" "i1 < int (length arr)" "0 \<le> j1" "j1 < int (length arr)"
        using su sd sw by auto
      have "arr' ! n = arr ! n" if "int n < i \<or> j < int n" for n
      proof -
        have "arr' ! n = quickSwap arr i1 j1 ! n" using ih that su sd by auto
        also have "\<dots> = arr ! n"
        proof -
          have bb: "i \<le> i1" "j1 \<le> j" using su sd by simp_all
          have "n \<noteq> nat i1" "n \<noteq> nat j1" using that bb sw b by arith+
          then show ?thesis by (simp add: quickSwap_def)
        qed
        finally show ?thesis .
      qed
      then show ?thesis using ih su sd mset_quickSwap [OF b] by auto
    next
      case nsw: False
      then have rec: "partitionLoop bel abv arr i1 j1 = Some (arr', i', j')"
        using "1.prems" True u d by (simp add: partitionLoop.simps [of bel abv arr i j])
      note ih = "1.IH"(2) [OF True u d nsw rec]
      show ?thesis using ih su sd by auto
    qed
  qed
qed

lemma partition_first:
  assumes "\<not> bel (arr ! nat m)" and "\<not> abv (arr ! nat m)" and "lo \<le> m" and "m \<le> hi"
    and "partitionLoop bel abv arr lo hi = Some (arr', i', j')"
  shows "lo < i' \<and> j' < hi"
proof -
  have le: "lo \<le> hi" using assms by simp
  from assms(5) le obtain i1 where u: "scanUp bel arr lo = Some i1"
    by (auto simp: partitionLoop.simps [of bel abv arr lo hi] split: option.splits)
  from assms(5) le u obtain j1 where d: "scanDown abv arr hi = Some j1"
    by (auto simp: partitionLoop.simps [of bel abv arr lo hi] split: option.splits)
  note su = scanUp_Some [OF u] and sd = scanDown_Some [OF d]
  have "i1 \<le> m" using su assms(1,3) by (meson not_le_imp_less)
  moreover have "m \<le> j1" using sd assms(2,4) by (meson not_le_imp_less)
  ultimately have sw: "i1 \<le> j1" by simp
  then have "partitionLoop bel abv (quickSwap arr i1 j1) (i1 + 1) (j1 - 1) = Some (arr', i', j')"
    using assms(5) le u d by (simp add: partitionLoop.simps [of bel abv arr lo hi])
  from partition_frame [OF this] su sd show ?thesis by auto
qed

lemma mid_range:
  "lo < hi \<Longrightarrow> 0 \<le> (lo + hi) sdiv 2 \<Longrightarrow> lo \<le> (lo + hi) sdiv 2 \<and> (lo + hi) sdiv 2 \<le> hi"
  for lo hi :: int
  by (auto simp: signed_divide_int_def sgn_if split: if_splits)

lemma readAt_Some: "readAt arr i = Some x \<Longrightarrow> 0 \<le> i \<and> i < int (length arr) \<and> x = arr ! nat i"
  by (auto simp: readAt_def split: if_splits)

lemma sort_step_bounds:
  assumes "\<not> hi \<le> lo" and "readAt arr ((lo + hi) sdiv 2) = Some pivot"
    and "\<not> bel pivot" and "\<not> abv pivot"
    and "partitionLoop bel abv arr lo hi = Some (arr1, i, j)"
  shows "lo < i \<and> j < hi"
proof -
  from readAt_Some [OF assms(2)]
  have p: "0 \<le> (lo + hi) sdiv 2" "pivot = arr ! nat ((lo + hi) sdiv 2)" by simp_all
  from mid_range [OF _ p(1)] assms(1)
  have m: "lo \<le> (lo + hi) sdiv 2" "(lo + hi) sdiv 2 \<le> hi" by simp_all
  show ?thesis
    by (rule partition_first [OF _ _ m assms(5)]) (use assms(3,4) p(2) in simp_all)
qed

text \<open>
  \<^verbatim>\<open>quickSortRoll(arr, lo, hi)\<close>: the result is the array after the call, or \<open>None\<close>
  when a read leaves the array. \<^verbatim>\<open>(lo+hi)/2\<close> truncates towards zero.
\<close>

function quickSortRoll :: "Student list \<Rightarrow> int \<Rightarrow> int \<Rightarrow> Student list option" where
  "quickSortRoll arr lo hi =
     (if lo \<ge> hi then Some arr
      else case readAt arr ((lo + hi) sdiv 2) of
        None \<Rightarrow> None
      | Some pivot \<Rightarrow>
          (case partitionLoop
                  (\<lambda>s. strcmp (getRoll s) (getRoll pivot) < 0)
                  (\<lambda>s. strcmp (getRoll s) (getRoll pivot) > 0) arr lo hi of
             None \<Rightarrow> None
           | Some (arr1, i, j) \<Rightarrow>
               (case (if lo < j then quickSortRoll arr1 lo j else Some arr1) of
                  None \<Rightarrow> None
                | Some arr2 \<Rightarrow> if i < hi then quickSortRoll arr2 i hi else Some arr2)))"
  by pat_completeness auto
termination
proof (relation "measure (\<lambda>(arr, lo, hi). nat (hi - lo))", goal_cases)
  case 1
  show ?case by simp
next
  case (2 arr lo hi pivot x arr1 y i j)
  have pl: "partitionLoop (\<lambda>s. strcmp (getRoll s) (getRoll pivot) < 0)
      (\<lambda>s. strcmp (getRoll s) (getRoll pivot) > 0) arr lo hi = Some (arr1, i, j)"
    using 2 by simp
  have "lo < i \<and> j < hi"
    by (rule sort_step_bounds [OF 2(1,2) _ _ pl]) (simp_all add: strcmp_lt strcmp_gt)
  then show ?case using 2 by simp
next
  case (3 arr lo hi pivot x arr1 y i j arr2)
  have pl: "partitionLoop (\<lambda>s. strcmp (getRoll s) (getRoll pivot) < 0)
      (\<lambda>s. strcmp (getRoll s) (getRoll pivot) > 0) arr lo hi = Some (arr1, i, j)"
    using 3 by simp
  have "lo < i \<and> j < hi"
    by (rule sort_step_bounds [OF 3(1,2) _ _ pl]) (simp_all add: strcmp_lt strcmp_gt)
  then show ?case using 3 by simp
qed

text \<open>\<^verbatim>\<open>quickSortMarks(arr, lo, hi, mc)\<close>.\<close>

function quickSortMarks ::
  "Student list \<Rightarrow> int \<Rightarrow> int \<Rightarrow> MarkComponent \<Rightarrow> Student list option" where
  "quickSortMarks arr lo hi mc =
     (if lo \<ge> hi then Some arr
      else case readAt arr ((lo + hi) sdiv 2) of
        None \<Rightarrow> None
      | Some pivot \<Rightarrow>
          (let pivotVal = getComponent pivot mc in
           case partitionLoop
                  (\<lambda>s. getComponent s mc < pivotVal)
                  (\<lambda>s. getComponent s mc > pivotVal) arr lo hi of
             None \<Rightarrow> None
           | Some (arr1, i, j) \<Rightarrow>
               (case (if lo < j then quickSortMarks arr1 lo j mc else Some arr1) of
                  None \<Rightarrow> None
                | Some arr2 \<Rightarrow> if i < hi then quickSortMarks arr2 i hi mc else Some arr2)))"
  by pat_completeness auto
termination
proof (relation "measure (\<lambda>(arr, lo, hi, mc). nat (hi - lo))", goal_cases)
  case 1
  show ?case by simp
next
  case (2 arr lo hi mc pivot pivotVal x arr1 y i j)
  have pl: "partitionLoop (\<lambda>s. getComponent s mc < pivotVal)
      (\<lambda>s. getComponent s mc > pivotVal) arr lo hi = Some (arr1, i, j)"
    using 2 by simp
  have "lo < i \<and> j < hi"
    by (rule sort_step_bounds [OF 2(1,2) _ _ pl]) (simp_all add: 2(3))
  then show ?case using 2 by simp
next
  case (3 arr lo hi mc pivot pivotVal x arr1 y i j arr2)
  have pl: "partitionLoop (\<lambda>s. getComponent s mc < pivotVal)
      (\<lambda>s. getComponent s mc > pivotVal) arr lo hi = Some (arr1, i, j)"
    using 3 by simp
  have "lo < i \<and> j < hi"
    by (rule sort_step_bounds [OF 3(1,2) _ _ pl]) (simp_all add: 3(3))
  then show ?case using 3 by simp
qed

text \<open>
  The common shape of the two sorts, for the proofs: the sort by a key with a linear
  order, where \<^verbatim>\<open>a < b\<close> on keys stands for the test of the source.
\<close>

function quickSortKey ::
  "('a \<Rightarrow> 'k::linorder) \<Rightarrow> 'a list \<Rightarrow> int \<Rightarrow> int \<Rightarrow> 'a list option" where
  "quickSortKey key arr lo hi =
     (if lo \<ge> hi then Some arr
      else case readAt arr ((lo + hi) sdiv 2) of
        None \<Rightarrow> None
      | Some pivot \<Rightarrow>
          (case partitionLoop (\<lambda>s. key s < key pivot) (\<lambda>s. key pivot < key s) arr lo hi of
             None \<Rightarrow> None
           | Some (arr1, i, j) \<Rightarrow>
               (case (if lo < j then quickSortKey key arr1 lo j else Some arr1) of
                  None \<Rightarrow> None
                | Some arr2 \<Rightarrow> if i < hi then quickSortKey key arr2 i hi else Some arr2)))"
  by pat_completeness auto
termination
proof (relation "measure (\<lambda>(key, arr, lo, hi). nat (hi - lo))", goal_cases)
  case 1
  show ?case by simp
next
  case (2 key arr lo hi pivot x arr1 y i j)
  have pl: "partitionLoop (\<lambda>s. key s < key pivot)
      (\<lambda>s. key pivot < key s) arr lo hi = Some (arr1, i, j)"
    using 2 by simp
  have "lo < i \<and> j < hi"
    by (rule sort_step_bounds [OF 2(1,2) _ _ pl]) simp_all
  then show ?case using 2 by simp
next
  case (3 key arr lo hi pivot x arr1 y i j arr2)
  have pl: "partitionLoop (\<lambda>s. key s < key pivot)
      (\<lambda>s. key pivot < key s) arr lo hi = Some (arr1, i, j)"
    using 3 by simp
  have "lo < i \<and> j < hi"
    by (rule sort_step_bounds [OF 3(1,2) _ _ pl]) simp_all
  then show ?case using 3 by simp
qed

declare quickSortRoll.simps [simp del] quickSortMarks.simps [simp del]
  quickSortKey.simps [simp del]

text \<open>The three students of \<^verbatim>\<open>demo()\<close>, added in the order of the demo.\<close>

definition s1 :: Student where
  "s1 = \<lparr>name = ''Amit Kumar'', roll = ''20CS1001'', branch = BR_CSE,
     marks = \<lparr>assignment = 15, midterm = 24, lab = 10, finalexam = 45\<rparr>, level = 0\<rparr>"
definition s2 :: Student where
  "s2 = \<lparr>name = ''Sunita Sharma'', roll = ''21EC2001'', branch = BR_ECE,
     marks = \<lparr>assignment = 18, midterm = 28, lab = 12, finalexam = 40\<rparr>, level = 1\<rparr>"
definition s3 :: Student where
  "s3 = \<lparr>name = ''Rahul Verma'', roll = ''19CS0999'', branch = BR_CSE,
     marks = \<lparr>assignment = 20, midterm = 30, lab = 15, finalexam = 50\<rparr>, level = 2\<rparr>"
definition demoCourse :: Course where
  "demoCourse = addAll emptyCourse [s1, s2, s3]"

text \<open>A student as the constructor of \<^verbatim>\<open>BTechStudent\<close> leaves it.\<close>

definition blankStudent :: Student where
  "blankStudent =
     \<lparr>name = [], roll = [], branch = BR_CSE,
      marks = \<lparr>assignment = 0, midterm = 0, lab = 0, finalexam = 0\<rparr>, level = 0\<rparr>"

text \<open>A student with a name, a roll and a midterm mark, for concrete inputs.\<close>

definition mkStudent :: "string \<Rightarrow> string \<Rightarrow> real \<Rightarrow> Student" where
  "mkStudent nm r m =
     \<lparr>name = nm, roll = r, branch = BR_CSE,
      marks = \<lparr>assignment = 0, midterm = m, lab = 0, finalexam = 0\<rparr>, level = 0\<rparr>"

subsection \<open>Specification vocabulary for names\<close>

text \<open>
  The whitespace-separated tokens of a string, after the words of the specification
  (not a function of the program): \<open>cur\<close> is the token being read.
\<close>

fun tokensAux :: "string \<Rightarrow> string \<Rightarrow> string list" where
  "tokensAux [] cur = (if cur = [] then [] else [cur])"
| "tokensAux (c # cs) cur =
     (if isspace_c c then (if cur = [] then tokensAux cs [] else cur # tokensAux cs [])
      else tokensAux cs (cur @ [c]))"

definition tokens :: "string \<Rightarrow> string list" where
  "tokens s = tokensAux s []"

text \<open>
  The normalized name of a student, after the words of the specification: the name
  read in the 27-symbol alphabet of \<^verbatim>\<open>chIndex\<close>. Lists of indices are compared
  lexicographically (a proper prefix is smaller).
\<close>

definition normalizedName :: "Student \<Rightarrow> nat list" where
  "normalizedName s = map chIndex (getName s)"

subsection \<open>Vocabulary for the trie\<close>

text \<open>
  For the proofs, \<open>keyed\<close> is the traversal of \<^verbatim>\<open>traverseCollect\<close> that also records
  the path of child indices from the root to the node of each student.
\<close>

lemma size_child:
  "(i, Some n) \<in> set (enumerate m ch) \<Longrightarrow> size n < Suc (size_list (size_option size) ch)"
proof -
  assume "(i, Some n) \<in> set (enumerate m ch)"
  then have "i - m < length ch" "ch ! (i - m) = Some n"
    by (auto simp: in_set_enumerate_eq)
  then have "Some n \<in> set ch" using nth_mem by fastforce
  then have "size_option size (Some n) \<le> size_list (size_option size) ch"
    by (induction ch) auto
  then show ?thesis by simp
qed

function keyed :: "TrieNode \<Rightarrow> (nat list \<times> Student) list" where
  "keyed (TrieNode ch st) =
     map (Pair []) st @
     concat (map (\<lambda>(i, c). case c of None \<Rightarrow> [] | Some n \<Rightarrow> map (\<lambda>(k, s). (i # k, s)) (keyed n))
                 (enumerate 0 ch))"
  by pat_completeness auto
termination
  by (relation "measure size") (auto simp: size_child)

text \<open>Every node of a trie has its \<^verbatim>\<open>TRIE_ALPHABET\<close> child slots.\<close>

fun wf_trie :: "TrieNode \<Rightarrow> bool" where
  "wf_trie (TrieNode ch st) =
     (length ch = TRIE_ALPHABET \<and>
      (\<forall>c \<in> set ch. case c of None \<Rightarrow> True | Some n \<Rightarrow> wf_trie n))"
text \<open>The part of \<open>keyed\<close> that comes from the children, with indices from \<open>m\<close> on.\<close>

definition blocks :: "nat \<Rightarrow> TrieNode option list \<Rightarrow> (nat list \<times> Student) list" where
  "blocks m ch = concat (map (\<lambda>(i, c). case c of None \<Rightarrow> [] | Some n \<Rightarrow> map (\<lambda>(k, s). (i # k, s)) (keyed n))
                 (enumerate m ch))"

abbreviation pre :: "nat \<Rightarrow> nat list \<times> Student \<Rightarrow> nat list \<times> Student" where
  "pre i \<equiv> (\<lambda>(k, s). (i # k, s))"

text \<open>
  Vocabulary for the sorts: a range \<open>[lo, hi]\<close> of an array is sorted by a key, and two
  arrays agree outside a range.
\<close>

definition sortedOn :: "('a \<Rightarrow> 'k::linorder) \<Rightarrow> 'a list \<Rightarrow> int \<Rightarrow> int \<Rightarrow> bool" where
  "sortedOn key arr lo hi =
     (\<forall>m n. lo \<le> int m \<and> m \<le> n \<and> int n \<le> hi \<longrightarrow> key (arr ! m) \<le> key (arr ! n))"

definition sameOutside :: "'a list \<Rightarrow> 'a list \<Rightarrow> int \<Rightarrow> int \<Rightarrow> bool" where
  "sameOutside arr' arr lo hi = (\<forall>n. int n < lo \<or> hi < int n \<longrightarrow> arr' ! n = arr ! n)"

section \<open>Validation\<close>

lemmas char_class_defs =
  isValidNameChar_def isValidRollChar_def isalnum_c_def isdigit_c_def isalpha_c_def
  isupper_c_def islower_c_def isspace_c_def code_def

lemma countLoop_invalid:
  "\<exists>c\<in>set s. \<not> isValidNameChar c \<Longrightarrow> countLoop s w iw = Inl InvalidSecondNameException"
  by (induction s w iw rule: countLoop.induct) auto

lemma countLoop_tokens:
  "\<forall>c\<in>set s. isValidNameChar c \<Longrightarrow>
   countLoop s w (cur \<noteq> []) =
     Inr (w + int (length (tokensAux s cur)) - (if cur = [] then 0 else 1))"
proof (induction s arbitrary: w cur)
  case Nil
  then show ?case by simp
next
  case (Cons a s)
  then have v: "\<forall>c\<in>set s. isValidNameChar c" and a: "isValidNameChar a" by simp_all
  show ?case
  proof (cases "isspace_c a")
    case True
    then show ?thesis using a Cons.IH [OF v, of w "[]"] by simp
  next
    case False
    then show ?thesis
      using a Cons.IH [OF v, of "w + 1" "cur @ [a]"] Cons.IH [OF v, of w "cur @ [a]"]
      by simp
  qed
qed

lemma checkWord_ok: "\<forall>c\<in>set s. isValidNameChar c \<Longrightarrow> checkWord s = Inr ()"
  by (induction s) (auto simp: isValidNameChar_def isspace_c_def code_def)

lemma secondLoop_ok: "\<forall>c\<in>set s. isValidNameChar c \<Longrightarrow> secondLoop s w iw = Inr ()"
proof (induction s w iw rule: secondLoop.induct)
  case (1 w iw)
  then show ?case by simp
next
  case (2 c cs w iw)
  have "checkWord (c # cs) = Inr ()" using 2(4) by (rule checkWord_ok)
  then show ?case using 2 by (simp del: checkWord.simps)
qed

lemma validateName_char:
  "validateName s =
     (if s = [] then Inl NoSecondNameException
      else if \<exists>c\<in>set s. \<not> isValidNameChar c then Inl InvalidSecondNameException
      else if length (tokens s) < 2 then Inl NoSecondNameException
      else Inr ())"
proof (cases "\<exists>c\<in>set s. \<not> isValidNameChar c")
  case True
  then show ?thesis by (auto simp: validateName_def countLoop_invalid)
next
  case False
  then have v: "\<forall>c\<in>set s. isValidNameChar c" by blast
  have "countLoop s 0 False = Inr (int (length (tokens s)))"
    using countLoop_tokens [OF v, of 0 "[]"] by (simp add: tokens_def)
  then show ?thesis using v by (simp add: validateName_def secondLoop_ok)
qed

lemma tokensAux_chars:
  "t \<in> set (tokensAux s cur) \<Longrightarrow> set t \<subseteq> set cur \<union> {c \<in> set s. \<not> isspace_c c}"
proof (induction s arbitrary: cur)
  case Nil
  then show ?case by (simp split: if_splits)
next
  case (Cons a s)
  show ?case
  proof (cases "isspace_c a")
    case True
    then have "t = cur \<or> t \<in> set (tokensAux s [])"
      using Cons.prems by (auto split: if_splits)
    then show ?thesis using Cons.IH [of "[]"] by auto
  next
    case False
    then have "t \<in> set (tokensAux s (cur @ [a]))" using Cons.prems by simp
    from Cons.IH [OF this] show ?thesis using False by auto
  qed
qed

lemma second_token_invalid:
  assumes "2 \<le> length (tokens s)" and "c \<in> set (tokens s ! 1)"
    and "\<not> isalpha_c c" and "c \<noteq> CHR ''-''"
  shows "c \<in> set s \<and> \<not> isValidNameChar c"
proof -
  have "tokens s ! 1 \<in> set (tokensAux s [])"
    using assms(1) by (simp add: tokens_def)
  from tokensAux_chars [OF this] assms(2) have "c \<in> set s" "\<not> isspace_c c" by auto
  moreover have "c \<noteq> CHR '' ''" using \<open>\<not> isspace_c c\<close> by (auto simp: isspace_c_def code_def)
  ultimately show ?thesis using assms(3,4) by (simp add: isValidNameChar_def)
qed

lemma rollLoop_char:
  "rollLoop s =
     (if \<exists>c\<in>set s. \<not> isValidRollChar c then Inl InvalidRollException else Inr ())"
  by (induction s) auto

text \<open>
  C6, as stated: the empty roll is rejected with an error kind of its own. The code has
  one exception class for both failures of \<^verbatim>\<open>validateRoll\<close>: the empty roll and a roll
  with an unrecognised character raise the same \<^verbatim>\<open>InvalidRollException\<close>.
\<close>

theorem C6_empty_roll_not_distinct:
  "validateRoll [] = Inl InvalidRollException \<and>
   validateRoll ''20CS#1003'' = Inl InvalidRollException"
  by (simp add: validateRoll_def char_class_defs)

text \<open>
  C6, amended: \<^verbatim>\<open>validateRoll\<close> fails with \<^verbatim>\<open>InvalidRollException\<close> when the roll is
  empty or some character is neither alphanumeric nor one of \<^verbatim>\<open>/\<close> and \<^verbatim>\<open>-\<close>, and
  succeeds otherwise; it accepts \<^verbatim>\<open>20CS1001\<close> and rejects \<^verbatim>\<open>20CS#1003\<close>.
\<close>

theorem C6_validateRoll:
  "validateRoll s =
     (if s = [] \<or> (\<exists>c\<in>set s. \<not> (isalnum_c c \<or> c = CHR ''/'' \<or> c = CHR ''-''))
      then Inl InvalidRollException else Inr ())"
  by (simp add: validateRoll_def rollLoop_char isValidRollChar_def)

theorem C6_validateRoll_witness:
  "validateRoll ''20CS1001'' = Inr () \<and>
   validateRoll ''20CS#1003'' = Inl InvalidRollException"
  using C6_validateRoll [of "''20CS1001''"] C6_validateRoll [of "''20CS#1003''"]
  by (simp add: char_class_defs)

text \<open>
  C7, as stated: the missing-second-name error is raised exactly when the name is empty
  or has fewer than two tokens. The name \<^verbatim>\<open>Single1\<close> has one token, and the code rejects
  it with \<^verbatim>\<open>InvalidSecondNameException\<close>: the character check of the first loop comes
  before the word count is looked at.
\<close>

theorem C7_one_token_other_error:
  "length (tokens ''Single1'') < 2 \<and>
   validateName ''Single1'' = Inl InvalidSecondNameException \<and>
   validateName ''Single1'' \<noteq> Inl NoSecondNameException"
  by (simp add: tokens_def validateName_def char_class_defs)

text \<open>
  C7, amended: \<^verbatim>\<open>validateName\<close> fails with \<^verbatim>\<open>NoSecondNameException\<close> exactly when the
  name is empty, or all its characters are letters, spaces or hyphens and it has fewer
  than two whitespace-separated tokens; it fails with \<^verbatim>\<open>InvalidSecondNameException\<close>
  exactly when the name is not empty and some character is not a letter, a space or a
  hyphen, which is the case whenever the second token has a character other than a
  letter or a hyphen; it succeeds otherwise. \<^verbatim>\<open>SingleName\<close> fails with
  \<^verbatim>\<open>NoSecondNameException\<close> and \<^verbatim>\<open>Maya Rao\<close> succeeds.
\<close>

theorem C7_validateName:
  "validateName s =
     (if s = [] then Inl NoSecondNameException
      else if \<exists>c\<in>set s. \<not> (isalpha_c c \<or> c = CHR '' '' \<or> c = CHR ''-'')
        then Inl InvalidSecondNameException
      else if length (tokens s) < 2 then Inl NoSecondNameException
      else Inr ())
   \<and> ((2 \<le> length (tokens s) \<and> (\<exists>c\<in>set (tokens s ! 1). \<not> isalpha_c c \<and> c \<noteq> CHR ''-''))
        \<longrightarrow> validateName s = Inl InvalidSecondNameException)
   \<and> validateName ''SingleName'' = Inl NoSecondNameException
   \<and> validateName ''Maya Rao'' = Inr ()"
proof -
  have a: "validateName s =
     (if s = [] then Inl NoSecondNameException
      else if \<exists>c\<in>set s. \<not> (isalpha_c c \<or> c = CHR '' '' \<or> c = CHR ''-'')
        then Inl InvalidSecondNameException
      else if length (tokens s) < 2 then Inl NoSecondNameException
      else Inr ())"
    using validateName_char [of s] by (simp add: isValidNameChar_def)
  have b: "validateName s = Inl InvalidSecondNameException"
    if "2 \<le> length (tokens s)" and "\<exists>c\<in>set (tokens s ! 1). \<not> isalpha_c c \<and> c \<noteq> CHR ''-''"
  proof -
    from that(2) obtain c where "c \<in> set (tokens s ! 1)" "\<not> isalpha_c c" "c \<noteq> CHR ''-''"
      by blast
    from second_token_invalid [OF that(1) this]
    have "c \<in> set s" "\<not> isValidNameChar c" by simp_all
    then have "s \<noteq> []" "\<exists>c\<in>set s. \<not> isValidNameChar c" by auto
    then show ?thesis using validateName_char [of s] by simp
  qed
  have c: "validateName ''SingleName'' = Inl NoSecondNameException"
    by (simp add: validateName_def char_class_defs)
  have d: "validateName ''Maya Rao'' = Inr ()"
    by (simp add: validateName_def char_class_defs)
  from a b c d show ?thesis by blast
qed

theorem C7_validateName_witness:
  "2 \<le> length (tokens ''Maya R4o'') \<and>
   (\<exists>c\<in>set (tokens ''Maya R4o'' ! 1). \<not> isalpha_c c \<and> c \<noteq> CHR ''-'') \<and>
   validateName ''Maya R4o'' = Inl InvalidSecondNameException \<and>
   validateName ''Maya'' = Inl NoSecondNameException"
proof -
  have t: "tokens ''Maya R4o'' = [''Maya'', ''R4o'']"
    by (simp add: tokens_def char_class_defs)
  have p: "2 \<le> length (tokens ''Maya R4o'') \<and>
    (\<exists>c\<in>set (tokens ''Maya R4o'' ! 1). \<not> isalpha_c c \<and> c \<noteq> CHR ''-'')"
    unfolding t by (simp add: char_class_defs)
  have q: "validateName ''Maya'' = Inl NoSecondNameException"
    using C7_validateName [of "''Maya''"] by (simp add: tokens_def char_class_defs)
  from p q C7_validateName [of "''Maya R4o''"] show ?thesis by blast
qed

section \<open>Setters are all-or-nothing\<close>

text \<open>
  C8: when \<^verbatim>\<open>setName\<close> or \<^verbatim>\<open>setRoll\<close> throws, the student is left exactly as it was
  (every field unchanged); when it returns, the field holds the new string and the other
  fields are unchanged.
\<close>

theorem C8_setters_atomic:
  "(snd (setName r nm) \<noteq> None \<longrightarrow> fst (setName r nm) = r) \<and>
   (snd (setRoll r rl) \<noteq> None \<longrightarrow> fst (setRoll r rl) = r) \<and>
   (snd (setName r nm) = None \<longrightarrow> fst (setName r nm) = r\<lparr>name := nm\<rparr>) \<and>
   (snd (setRoll r rl) = None \<longrightarrow> fst (setRoll r rl) = r\<lparr>roll := rl\<rparr>)"
  by (auto simp: setName_def setRoll_def safeStrCpy_def Let_def split: sum.splits if_splits)

theorem C8_setters_atomic_witness:
  "snd (setName blankStudent ''SingleName'') \<noteq> None \<and>
   fst (setName blankStudent ''SingleName'') = blankStudent \<and>
   snd (setRoll blankStudent ''20CS#1003'') \<noteq> None \<and>
   fst (setRoll blankStudent ''20CS#1003'') = blankStudent \<and>
   snd (setName blankStudent ''Maya Rao'') = None \<and>
   fst (setName blankStudent ''Maya Rao'') = blankStudent\<lparr>name := ''Maya Rao''\<rparr> \<and>
   snd (setRoll blankStudent ''20CS1001'') = None \<and>
   fst (setRoll blankStudent ''20CS1001'') = blankStudent\<lparr>roll := ''20CS1001''\<rparr>"
proof -
  have e1: "snd (setName blankStudent ''SingleName'') \<noteq> None"
    by (simp add: setName_def validateName_def char_class_defs)
  have e2: "snd (setRoll blankStudent ''20CS#1003'') \<noteq> None"
    by (simp add: setRoll_def validateRoll_def char_class_defs)
  have s1: "snd (setName blankStudent ''Maya Rao'') = None"
    by (simp add: setName_def validateName_def safeStrCpy_def NAME_MAX_def char_class_defs)
  have s2: "snd (setRoll blankStudent ''20CS1001'') = None"
    by (simp add: setRoll_def validateRoll_def safeStrCpy_def ROLL_MAX_def char_class_defs)
  from e1 e2 s1 s2
    C8_setters_atomic [of blankStudent "''SingleName''" "''20CS#1003''"]
    C8_setters_atomic [of blankStudent "''Maya Rao''" "''20CS1001''"]
  show ?thesis by blast
qed

section \<open>Lookup in a course\<close>

lemma findNode_append:
  "findNode (xs @ ys) k = (case findNode xs k of None \<Rightarrow> findNode ys k | Some s \<Rightarrow> Some s)"
  by (induction xs) auto

lemma nodes_addAll: "nodes (addAll c ss) = rev ss @ nodes c"
  by (induction ss arbitrary: c) (auto simp: addAll_def add_def)

lemma count_addAll: "count_c (addAll c ss) = count_c c + int (length ss)"
  by (induction ss arbitrary: c) (auto simp: addAll_def add_def)

lemma findNode_rev:
  "findNode (rev ss) k =
     (case filter (\<lambda>s. getRoll s = k) ss of [] \<Rightarrow> None | ms \<Rightarrow> Some (last ms))"
  by (induction ss) (auto simp: findNode_append strcmp_eq split: option.splits list.splits)

text \<open>
  C9: in a course built by a sequence of \<^verbatim>\<open>+=\<close>, \<^verbatim>\<open>findByRoll\<close> and \<^verbatim>\<open>operator()\<close>
  return the most recently added student among those with the roll that is looked up.
\<close>

theorem C9_lookup_most_recent:
  assumes "filter (\<lambda>s. getRoll s = k) ss \<noteq> []"
  shows "findByRoll (addAll c ss) k = Some (last (filter (\<lambda>s. getRoll s = k) ss)) \<and>
         lookup (addAll c ss) k = Inr (last (filter (\<lambda>s. getRoll s = k) ss))"
proof -
  have "findNode (rev ss) k = Some (last (filter (\<lambda>s. getRoll s = k) ss))"
    using assms by (simp add: findNode_rev split: list.splits)
  then have "findByRoll (addAll c ss) k = Some (last (filter (\<lambda>s. getRoll s = k) ss))"
    by (simp add: findByRoll_def nodes_addAll findNode_append)
  then show ?thesis by (simp add: lookup_def)
qed

theorem C9_lookup_most_recent_witness:
  "filter (\<lambda>s. getRoll s = ''R1'')
     [blankStudent\<lparr>name := ''A B'', roll := ''R1''\<rparr>,
      blankStudent\<lparr>name := ''C D'', roll := ''R2''\<rparr>,
      blankStudent\<lparr>name := ''E F'', roll := ''R1''\<rparr>] \<noteq> [] \<and>
   findByRoll (addAll emptyCourse
     [blankStudent\<lparr>name := ''A B'', roll := ''R1''\<rparr>,
      blankStudent\<lparr>name := ''C D'', roll := ''R2''\<rparr>,
      blankStudent\<lparr>name := ''E F'', roll := ''R1''\<rparr>]) ''R1''
     = Some (blankStudent\<lparr>name := ''E F'', roll := ''R1''\<rparr>) \<and>
   lookup (addAll emptyCourse
     [blankStudent\<lparr>name := ''A B'', roll := ''R1''\<rparr>,
      blankStudent\<lparr>name := ''C D'', roll := ''R2''\<rparr>,
      blankStudent\<lparr>name := ''E F'', roll := ''R1''\<rparr>]) ''R1''
     = Inr (blankStudent\<lparr>name := ''E F'', roll := ''R1''\<rparr>)"
proof -
  let ?ss = "[blankStudent\<lparr>name := ''A B'', roll := ''R1''\<rparr>,
      blankStudent\<lparr>name := ''C D'', roll := ''R2''\<rparr>,
      blankStudent\<lparr>name := ''E F'', roll := ''R1''\<rparr>]"
  have h: "filter (\<lambda>s. getRoll s = ''R1'') ?ss \<noteq> []" by simp
  from C9_lookup_most_recent [OF h, of emptyCourse] h show ?thesis by simp
qed

section \<open>Sorting by name with the trie\<close>

lemma blocks_Nil: "blocks m [] = []" by (simp add: blocks_def)
lemma blocks_Cons: "blocks m (c # ch) =
   (case c of None \<Rightarrow> [] | Some n \<Rightarrow> map (\<lambda>(k, s). (m # k, s)) (keyed n)) @ blocks (Suc m) ch"
  by (simp add: blocks_def)

lemma keyed_blocks: "keyed (TrieNode ch st) = map (Pair []) st @ blocks 0 ch"
  by (simp add: blocks_def)

lemma traverse_foldl:
  "(\<And>c n acc. c \<in> set ch \<Longrightarrow> c = Some n \<Longrightarrow> traverseCollect n acc = acc @ map snd (keyed n)) \<Longrightarrow>
   foldl (\<lambda>acc c. case c of None \<Rightarrow> acc | Some n \<Rightarrow> traverseCollect n acc) out ch
     = out @ map snd (blocks m ch)"
proof (induction ch arbitrary: out m)
  case Nil
  then show ?case by (simp add: blocks_Nil)
next
  case (Cons c ch)
  show ?case
  proof (cases c)
    case None
    then show ?thesis using Cons.IH [of out "Suc m"] Cons.prems
      by (simp add: blocks_Cons)
  next
    case (Some n)
    have "traverseCollect n out = out @ map snd (keyed n)"
      using Cons.prems [of c n out] Some by simp
    then show ?thesis using Cons.IH [of "out @ map snd (keyed n)" "Suc m"] Cons.prems Some
      by (simp add: blocks_Cons comp_def case_prod_unfold)
  qed
qed

lemma traverse_keyed: "traverseCollect t out = out @ map snd (keyed t)"
proof (induction t arbitrary: out)
  case (TrieNode ch st)
  have "foldl (\<lambda>acc c. case c of None \<Rightarrow> acc | Some n \<Rightarrow> traverseCollect n acc) (out @ st) ch
     = (out @ st) @ map snd (blocks 0 ch)"
    by (rule traverse_foldl) (use TrieNode.IH in auto)
  then show ?case by (simp add: keyed_blocks comp_def del: keyed.simps)
qed


lemma blocks_head:
  "e \<in> set (blocks m ch) \<Longrightarrow> \<exists>i k. fst e = i # k \<and> m \<le> i \<and> i < m + length ch"
proof (induction ch arbitrary: m)
  case Nil
  then show ?case by (simp add: blocks_Nil)
next
  case (Cons c ch)
  have "(\<exists>n. c = Some n \<and> e \<in> pre m ` set (keyed n)) \<or> e \<in> set (blocks (Suc m) ch)"
    using Cons.prems by (cases c) (simp_all add: blocks_Cons del: keyed.simps)
  then show ?case
  proof
    assume "\<exists>n. c = Some n \<and> e \<in> pre m ` set (keyed n)"
    then show ?thesis by auto
  next
    assume "e \<in> set (blocks (Suc m) ch)"
    from Cons.IH [OF this] show ?thesis by auto
  qed
qed

lemma sorted_pre: "sorted (map fst (map (pre i) xs)) = sorted (map fst xs)"
  by (induction xs) (auto simp: case_prod_unfold)

lemma set_pre: "a \<in> set (map (pre i) xs) \<Longrightarrow> \<exists>k. fst a = i # k"
  by auto

lemma sorted_blocks:
  "(\<And>n. Some n \<in> set ch \<Longrightarrow> sorted (map fst (keyed n))) \<Longrightarrow> sorted (map fst (blocks m ch))"
proof (induction ch arbitrary: m)
  case Nil
  then show ?case by (simp add: blocks_Nil)
next
  case (Cons c ch)
  have rest: "sorted (map fst (blocks (Suc m) ch))"
    by (rule Cons.IH) (use Cons.prems in auto)
  show ?case
  proof (cases c)
    case None
    then show ?thesis using rest by (simp add: blocks_Cons)
  next
    case (Some n)
    have hd: "sorted (map fst (map (pre m) (keyed n)))"
      unfolding sorted_pre using Cons.prems [of n] Some by simp
    have lt: "fst a \<le> fst b" if "a \<in> set (map (pre m) (keyed n))" "b \<in> set (blocks (Suc m) ch)" for a b
    proof -
      from set_pre [OF that(1)] obtain k where a: "fst a = m # k" by blast
      from blocks_head [OF that(2)] obtain i k' where b: "fst b = i # k'" "Suc m \<le> i" by blast
      show ?thesis using a b by simp
    qed
    have "map fst (blocks m (c # ch)) =
        map fst (map (pre m) (keyed n)) @ map fst (blocks (Suc m) ch)"
      using Some by (simp add: blocks_Cons del: keyed.simps map_map)
    moreover have "sorted (map fst (map (pre m) (keyed n)) @ map fst (blocks (Suc m) ch))"
      unfolding sorted_append using hd rest lt by (auto simp del: keyed.simps map_map)
    ultimately show ?thesis by simp
  qed
qed

lemma sorted_keyed: "sorted (map fst (keyed t))"
proof (induction t)
  case (TrieNode ch st)
  have b: "sorted (map fst (blocks 0 ch))"
    by (rule sorted_blocks) (use TrieNode.IH in auto)
  have a: "sorted (map fst (map (Pair []) st))" by (induction st) auto
  have "fst x \<le> fst y" if "x \<in> set (map (Pair []) st)" for x y :: "nat list \<times> Student"
    using that by auto
  then have "sorted (map fst (map (Pair []) st) @ map fst (blocks 0 ch))"
    unfolding sorted_append using a b by (auto simp del: map_map)
  then show ?case by (simp add: keyed_blocks del: keyed.simps)
qed

lemma filter_blocks_Nil: "filter (\<lambda>e. fst e = []) (blocks m ch) = []"
proof -
  have "fst e \<noteq> []" if "e \<in> set (blocks m ch)" for e
    using blocks_head [OF that] by auto
  then show ?thesis by (auto simp: filter_empty_conv)
qed

lemma filter_pre:
  "filter (\<lambda>e. fst e = j # k) (map (pre i) xs) =
     (if i = j then map (pre i) (filter (\<lambda>e. fst e = k) xs) else [])"
  by (induction xs) (auto simp: case_prod_unfold)

lemma filter_blocks:
  "filter (\<lambda>e. fst e = j # k) (blocks m ch) =
     (if m \<le> j \<and> j < m + length ch
      then (case ch ! (j - m) of None \<Rightarrow> []
            | Some n \<Rightarrow> map (pre j) (filter (\<lambda>e. fst e = k) (keyed n)))
      else [])"
proof (induction ch arbitrary: m)
  case Nil
  then show ?case by (auto simp: blocks_Nil)
next
  case (Cons c ch)
  show ?case
  proof (cases "j = m")
    case True
    then have "filter (\<lambda>e. fst e = j # k) (blocks (Suc m) ch) = []"
      using Cons.IH [of "Suc m"] by simp
    then show ?thesis using True
      by (simp add: blocks_Cons filter_pre split: option.splits del: keyed.simps)
  next
    case False
    have "filter (\<lambda>e. fst e = j # k) (case c of None \<Rightarrow> [] | Some n \<Rightarrow> map (pre m) (keyed n)) = []"
      using False by (simp add: filter_pre split: option.splits del: keyed.simps)
    then show ?thesis using False Cons.IH [of "Suc m"]
      by (auto simp: blocks_Cons Suc_diff_le simp del: keyed.simps)
  qed
qed

lemma filter_keyed_Nil:
  "filter (\<lambda>e. fst e = []) (keyed (TrieNode ch st)) = map (Pair []) st"
proof -
  have "filter (\<lambda>e. fst e = []) (map (Pair []) st) = map (Pair []) st"
    by (induction st) auto
  then show ?thesis by (simp add: keyed_blocks filter_blocks_Nil del: keyed.simps)
qed

lemma filter_keyed_Cons:
  "filter (\<lambda>e. fst e = j # k) (keyed (TrieNode ch st)) =
     (if j < length ch
      then (case ch ! j of None \<Rightarrow> []
            | Some n \<Rightarrow> map (pre j) (filter (\<lambda>e. fst e = k) (keyed n)))
      else [])"
proof -
  have "filter (\<lambda>e. fst e = j # k) (map (Pair []) st) = []"
    by (induction st) auto
  then show ?thesis using filter_blocks [of j k 0 ch]
    by (simp add: keyed_blocks del: keyed.simps)
qed

lemma chIndex_bound: "chIndex c < TRIE_ALPHABET"
  by (auto simp: chIndex_def TRIE_ALPHABET_def Let_def code_def)

lemma keyed_new: "keyed newTrieNode = []"
proof -
  have "blocks m (replicate n None) = []" for m n
    by (induction n arbitrary: m) (simp_all add: blocks_Nil blocks_Cons)
  then show ?thesis by (simp add: newTrieNode_def keyed_blocks del: keyed.simps)
qed

lemma wf_new: "wf_trie newTrieNode"
  by (simp add: newTrieNode_def)

lemma wf_child: "wf_trie (TrieNode ch st) \<Longrightarrow> i < length ch \<Longrightarrow> ch ! i = Some n \<Longrightarrow> wf_trie n"
proof -
  assume w: "wf_trie (TrieNode ch st)" and "i < length ch" and c: "ch ! i = Some n"
  have "ch ! i \<in> set ch" using \<open>i < length ch\<close> by (rule nth_mem)
  then have m: "Some n \<in> set ch" using c by simp
  from w have "\<forall>c\<in>set ch. case c of None \<Rightarrow> True | Some n \<Rightarrow> wf_trie n" by simp
  from bspec [OF this m] show "wf_trie n" by simp
qed

lemma wf_insertFrom: "wf_trie t \<Longrightarrow> wf_trie (insertFrom t cs s)"
proof (induction cs arbitrary: t)
  case Nil
  then show ?case by (cases t) simp
next
  case (Cons c cs)
  obtain ch st where t: "t = TrieNode ch st" by (cases t)
  let ?i = "chIndex c"
  let ?child = "case ch ! ?i of None \<Rightarrow> newTrieNode | Some n \<Rightarrow> n"
  have len: "?i < length ch" using Cons.prems t chIndex_bound [of c] by simp
  have "wf_trie ?child"
    using wf_child [of ch st ?i] Cons.prems t len by (auto simp: wf_new split: option.splits)
  then have "wf_trie (insertFrom ?child cs s)" by (rule Cons.IH)
  then show ?case using Cons.prems t
    by (auto simp: Let_def dest!: set_update_subset_insert [THEN subsetD])
qed

lemma filter_insertFrom:
  "wf_trie t \<Longrightarrow>
   filter (\<lambda>e. fst e = k) (keyed (insertFrom t cs s)) =
     filter (\<lambda>e. fst e = k) (keyed t) @ (if k = map chIndex cs then [(k, s)] else [])"
proof (induction cs arbitrary: t k)
  case Nil
  obtain ch st where t: "t = TrieNode ch st" by (cases t)
  show ?case
  proof (cases k)
    case Nil
    then show ?thesis using t by (simp add: filter_keyed_Nil del: keyed.simps)
  next
    case (Cons j k')
    then show ?thesis using t by (simp add: filter_keyed_Cons del: keyed.simps)
  qed
next
  case (Cons c cs)
  obtain ch st where t: "t = TrieNode ch st" by (cases t)
  let ?i = "chIndex c"
  let ?child = "case ch ! ?i of None \<Rightarrow> newTrieNode | Some n \<Rightarrow> n"
  have len: "?i < length ch" using Cons.prems t chIndex_bound [of c] by simp
  have wfc: "wf_trie ?child"
    using wf_child [of ch st ?i] Cons.prems t len by (auto simp: wf_new split: option.splits)
  have ins: "insertFrom t (c # cs) s = TrieNode (ch[?i := Some (insertFrom ?child cs s)]) st"
    using t by (simp add: Let_def)
  show ?case
  proof (cases k)
    case Nil
    then show ?thesis unfolding ins using t by (simp add: filter_keyed_Nil del: keyed.simps)
  next
    case k: (Cons j k')
    show ?thesis
    proof (cases "j = ?i")
      case True
      have child: "filter (\<lambda>e. fst e = k') (keyed ?child) =
          (case ch ! ?i of None \<Rightarrow> [] | Some n \<Rightarrow> filter (\<lambda>e. fst e = k') (keyed n))"
        by (simp add: keyed_new split: option.splits del: keyed.simps)
      show ?thesis unfolding ins k using True len t Cons.IH [OF wfc, of k'] child
        by (auto simp: filter_keyed_Cons split: option.splits simp del: keyed.simps)
    next
      case False
      then show ?thesis unfolding ins k using t
        by (simp add: filter_keyed_Cons del: keyed.simps)
    qed
  qed
qed


lemma filter_build:
  "wf_trie t \<Longrightarrow>
   wf_trie (foldl trie_insert t xs) \<and>
   filter (\<lambda>e. fst e = k) (keyed (foldl trie_insert t xs)) =
     filter (\<lambda>e. fst e = k) (keyed t) @ map (Pair k) (filter (\<lambda>s. normalizedName s = k) xs)"
proof (induction xs arbitrary: t)
  case Nil
  then show ?case by simp
next
  case (Cons x xs)
  have w: "wf_trie (trie_insert t x)"
    using Cons.prems by (simp add: trie_insert_def wf_insertFrom)
  have f: "filter (\<lambda>e. fst e = k) (keyed (trie_insert t x)) =
      filter (\<lambda>e. fst e = k) (keyed t) @ (if k = normalizedName x then [(k, x)] else [])"
    using filter_insertFrom [OF Cons.prems, of k "getName x" x]
    by (simp add: trie_insert_def normalizedName_def)
  show ?case using Cons.IH [OF w] f by auto
qed

lemma filter_build_new:
  "filter (\<lambda>e. fst e = k) (keyed (foldl trie_insert newTrieNode xs)) =
     map (Pair k) (filter (\<lambda>s. normalizedName s = k) xs)"
  using filter_build [OF wf_new, of xs k] by (simp add: keyed_new)

lemma keys_build:
  assumes "e \<in> set (keyed (foldl trie_insert newTrieNode xs))"
  shows "fst e = normalizedName (snd e)"
proof -
  have "e \<in> set (filter (\<lambda>e'. fst e' = fst e) (keyed (foldl trie_insert newTrieNode xs)))"
    using assms by simp
  then have "e \<in> set (map (Pair (fst e)) (filter (\<lambda>s. normalizedName s = fst e) xs))"
    by (simp only: filter_build_new)
  then obtain x where x: "e = (fst e, x)" "normalizedName x = fst e" by auto
  from x(1) have "snd e = x" by (metis snd_conv)
  with x(2) show ?thesis by simp
qed

lemma collect_build_sorted:
  "sorted (map normalizedName (collectSorted (foldl trie_insert newTrieNode xs)))"
proof -
  let ?T = "foldl trie_insert newTrieNode xs"
  have "map normalizedName (map snd (keyed ?T)) = map fst (keyed ?T)"
    using keys_build [of _ xs] by (simp del: keyed.simps)
  then show ?thesis
    using sorted_keyed [of ?T] by (simp add: collectSorted_def traverse_keyed del: map_map)
qed

lemma collect_build_stable:
  "filter (\<lambda>s. normalizedName s = k) (collectSorted (foldl trie_insert newTrieNode xs)) =
   filter (\<lambda>s. normalizedName s = k) xs"
proof -
  let ?T = "foldl trie_insert newTrieNode xs"
  have "filter (\<lambda>s. normalizedName s = k) (map snd (keyed ?T)) =
        map snd (filter (\<lambda>e. normalizedName (snd e) = k) (keyed ?T))"
    by (simp add: filter_map comp_def)
  also have "filter (\<lambda>e. normalizedName (snd e) = k) (keyed ?T) = filter (\<lambda>e. fst e = k) (keyed ?T)"
    by (rule filter_cong) (use keys_build [of _ xs] in auto)
  also have "map snd (filter (\<lambda>e. fst e = k) (keyed ?T)) = filter (\<lambda>s. normalizedName s = k) xs"
    by (simp add: filter_build_new comp_def)
  finally show ?thesis by (simp add: collectSorted_def traverse_keyed)
qed

lemma mset_of_filters:
  assumes "\<And>k. filter (\<lambda>x. f x = k) xs = filter (\<lambda>x. f x = k) ys"
  shows "mset xs = mset ys"
proof (rule multiset_eqI)
  fix x
  have "count (mset xs) x = count (mset (filter (\<lambda>y. f y = f x) xs)) x" by simp
  also have "\<dots> = count (mset (filter (\<lambda>y. f y = f x) ys)) x" by (simp only: assms)
  also have "\<dots> = count (mset ys) x" by simp
  finally show "count (mset xs) x = count (mset ys) x" .
qed

lemma collect_build_mset:
  "mset (collectSorted (foldl trie_insert newTrieNode xs)) = mset xs"
  by (rule mset_of_filters [where f = normalizedName]) (rule collect_build_stable)

lemma sortByName_build:
  "count_c c = int (length (nodes c)) \<Longrightarrow>
   sortByNameUsingTrie c = collectSorted (foldl trie_insert newTrieNode (nodes c))"
  by (simp add: sortByNameUsingTrie_def size_c_def exportArray_def Let_def collectSorted_def
      traverse_keyed keyed_new)


lemma chIndex_alphabet:
  "chIndex ch =
     (if islower_c ch then code ch - 97 else if isupper_c ch then code ch - 65 else 26)"
proof -
  have up: "code (char_of (code ch + 32)) = code ch + 32" if "isupper_c ch"
    using that by (simp add: code_def isupper_c_def)
  show ?thesis
    by (auto simp: chIndex_def tolower_c_def Let_def up islower_c_def isupper_c_def)
       (auto simp: code_def)
qed

text \<open>
  C4: for every course (whose \<^verbatim>\<open>count\<close> is the length of its list, as \<^verbatim>\<open>+=\<close> keeps
  it), \<^verbatim>\<open>sortByNameUsingTrie\<close> returns the students of the course ordered by ascending
  lexicographic comparison of their names read in the 27-symbol alphabet
  \<open>a < b < \<dots> < z < separator\<close>: a letter of either case has the index of the letter,
  and the space and every character outside \<open>[A-Za-z]\<close> have index 26, after all letters.
  The students of the demo come out as Amit Kumar, Rahul Verma, Sunita Sharma.
\<close>

theorem C4_sortByName_sorted:
  assumes "count_c c = int (length (nodes c))"
  shows "sorted (map normalizedName (sortByNameUsingTrie c)) \<and>
         mset (sortByNameUsingTrie c) = mset (nodes c) \<and>
         chIndex ch =
           (if islower_c ch then code ch - 97 else if isupper_c ch then code ch - 65 else 26) \<and>
         map getName (sortByNameUsingTrie demoCourse) =
           [''Amit Kumar'', ''Rahul Verma'', ''Sunita Sharma'']"
proof -
  have d: "map getName (sortByNameUsingTrie demoCourse) =
           [''Amit Kumar'', ''Rahul Verma'', ''Sunita Sharma'']"
    by code_simp
  show ?thesis
    using d chIndex_alphabet [of ch]
    by (simp add: sortByName_build [OF assms] collect_build_sorted collect_build_mset
        normalizedName_def)
qed

theorem C4_sortByName_sorted_witness:
  "count_c demoCourse = int (length (nodes demoCourse)) \<and>
   sorted (map normalizedName (sortByNameUsingTrie demoCourse)) \<and>
   mset (sortByNameUsingTrie demoCourse) = mset [s3, s2, s1] \<and>
   chIndex CHR ''R'' = 17 \<and> chIndex CHR ''r'' = 17 \<and> chIndex CHR '' '' = 26 \<and>
   chIndex CHR ''-'' = 26"
proof -
  have h: "count_c demoCourse = int (length (nodes demoCourse))"
    by (simp add: demoCourse_def count_addAll nodes_addAll emptyCourse_def)
  have n: "nodes demoCourse = [s3, s2, s1]"
    by (simp add: demoCourse_def nodes_addAll emptyCourse_def)
  have c: "chIndex CHR ''R'' = 17 \<and> chIndex CHR ''r'' = 17 \<and> chIndex CHR '' '' = 26 \<and>
   chIndex CHR ''-'' = 26"
    using C4_sortByName_sorted [OF h, of "CHR ''R''"] C4_sortByName_sorted [OF h, of "CHR ''r''"]
     C4_sortByName_sorted [OF h, of "CHR '' ''"] C4_sortByName_sorted [OF h, of "CHR ''-''"]
    by (simp add: islower_c_def isupper_c_def code_def)
  from C4_sortByName_sorted [OF h, of "CHR ''R''"] h n c show ?thesis by simp
qed

text \<open>
  C2, as stated: two students with the same normalized name come out of
  \<^verbatim>\<open>sortByNameUsingTrie\<close> in the order in which they were added to the course. The
  student added first comes out last: \<^verbatim>\<open>+=\<close> inserts at the head, \<^verbatim>\<open>exportArray\<close> reads
  from the head, and the trie keeps the order of that array.
\<close>

theorem C2_same_name_reversed:
  "sortByNameUsingTrie (addAll emptyCourse
      [blankStudent\<lparr>name := ''Asha Rao'', roll := ''R1''\<rparr>,
       blankStudent\<lparr>name := ''Asha Rao'', roll := ''R2''\<rparr>])
   = [blankStudent\<lparr>name := ''Asha Rao'', roll := ''R2''\<rparr>,
      blankStudent\<lparr>name := ''Asha Rao'', roll := ''R1''\<rparr>]"
  by code_simp

text \<open>
  C2, amended: for every course built by a sequence of \<^verbatim>\<open>+=\<close> and every normalized
  name, the students with that name come out of \<^verbatim>\<open>sortByNameUsingTrie\<close> in the order
  of the exported array, which is the reverse of the order in which they were added (the
  most recently added first), whatever their rolls.
\<close>

theorem C2_same_name_snapshot_order:
  "filter (\<lambda>s. normalizedName s = k) (sortByNameUsingTrie (addAll emptyCourse ss)) =
     rev (filter (\<lambda>s. normalizedName s = k) ss) \<and>
   exportArray (addAll emptyCourse ss) = rev ss"
proof -
  let ?c = "addAll emptyCourse ss"
  have inv: "count_c ?c = int (length (nodes ?c))"
    by (simp add: count_addAll nodes_addAll emptyCourse_def)
  have n: "nodes ?c = rev ss" by (simp add: nodes_addAll emptyCourse_def)
  have e: "exportArray ?c = rev ss"
    using n by (simp add: exportArray_def count_addAll) (simp add: emptyCourse_def)
  show ?thesis
    by (simp add: sortByName_build [OF inv] collect_build_stable n rev_filter e)
qed

theorem C2_same_name_snapshot_order_witness:
  "filter (\<lambda>s. normalizedName s = normalizedName (blankStudent\<lparr>name := ''asha rao''\<rparr>))
     (sortByNameUsingTrie (addAll emptyCourse
      [blankStudent\<lparr>name := ''Asha Rao'', roll := ''R1''\<rparr>,
       blankStudent\<lparr>name := ''Bina Das'', roll := ''R0''\<rparr>,
       blankStudent\<lparr>name := ''Asha Rao'', roll := ''R2''\<rparr>]))
   = [blankStudent\<lparr>name := ''Asha Rao'', roll := ''R2''\<rparr>,
      blankStudent\<lparr>name := ''Asha Rao'', roll := ''R1''\<rparr>]"
proof -
  have k: "normalizedName (blankStudent\<lparr>name := ''asha rao''\<rparr>) = [0, 18, 7, 0, 26, 17, 0, 14]"
    by code_simp
  have a: "normalizedName (blankStudent\<lparr>name := ''Asha Rao'', roll := r\<rparr>) = [0, 18, 7, 0, 26, 17, 0, 14]" for r
    by (simp add: normalizedName_def chIndex_alphabet islower_c_def isupper_c_def code_def)
  have b: "normalizedName (blankStudent\<lparr>name := ''Bina Das'', roll := r\<rparr>) \<noteq> [0, 18, 7, 0, 26, 17, 0, 14]" for r
    by (simp add: normalizedName_def chIndex_alphabet islower_c_def isupper_c_def code_def)
  show ?thesis
    using C2_same_name_snapshot_order [of "[0, 18, 7, 0, 26, 17, 0, 14]"
      "[blankStudent\<lparr>name := ''Asha Rao'', roll := ''R1''\<rparr>,
       blankStudent\<lparr>name := ''Bina Das'', roll := ''R0''\<rparr>,
       blankStudent\<lparr>name := ''Asha Rao'', roll := ''R2''\<rparr>]"]
    unfolding k by (simp add: a b)
qed


section \<open>The partition-based sorts\<close>

lemma quickSortRoll_key: "quickSortRoll arr lo hi = quickSortKey getRoll arr lo hi"
proof (induction arr lo hi rule: quickSortRoll.induct)
  case (1 arr lo hi)
  show ?case
    unfolding quickSortRoll.simps [of arr lo hi] quickSortKey.simps [of getRoll arr lo hi]
    using 1 by (auto simp: strcmp_lt strcmp_gt split: option.splits)
qed

lemma quickSortMarks_key:
  "quickSortMarks arr lo hi mc = quickSortKey (\<lambda>s. getComponent s mc) arr lo hi"
proof (induction arr lo hi mc rule: quickSortMarks.induct)
  case (1 arr lo hi mc)
  show ?case
    unfolding quickSortMarks.simps [of arr lo hi mc]
      quickSortKey.simps [of "\<lambda>s. getComponent s mc" arr lo hi]
    using 1 by (auto simp: Let_def split: option.splits)
qed


lemma partition_key:
  fixes key :: "'a \<Rightarrow> 'k::linorder"
  assumes "bel = (\<lambda>s. key s < p)" and "abv = (\<lambda>s. p < key s)"
    and "0 \<le> lo" and "hi < int (length arr)" and "lo \<le> i" and "j \<le> hi"
    and "\<forall>n. lo \<le> int n \<and> int n < i \<longrightarrow> key (arr ! n) \<le> p"
    and "\<forall>n. j < int n \<and> int n \<le> hi \<longrightarrow> p \<le> key (arr ! n)"
    and "(\<exists>m. i \<le> m \<and> m \<le> j \<and> key (arr ! nat m) = p) \<or> (lo < i \<and> j < hi)"
  shows "\<exists>arr' i' j'. partitionLoop bel abv arr i j = Some (arr', i', j') \<and> j' < i' \<and>
           (\<forall>n. lo \<le> int n \<and> int n < i' \<longrightarrow> key (arr' ! n) \<le> p) \<and>
           (\<forall>n. j' < int n \<and> int n \<le> hi \<longrightarrow> p \<le> key (arr' ! n))"
  using assms
proof (induction bel abv arr i j rule: partitionLoop.induct)
  case (1 bel abv arr i j)
  note L = "1.prems"(7) and R = "1.prems"(8) and S = "1.prems"(9)
  note bel = "1.prems"(1) and abv = "1.prems"(2)
  show ?case
  proof (cases "i \<le> j")
    case False
    then show ?thesis using L R by (simp add: partitionLoop.simps [of bel abv arr i j])
  next
    case True
    have i0: "0 \<le> i" using "1.prems" by simp
    have jl: "j < int (length arr)" using "1.prems" by simp
    \<comment> \<open>a sentinel stops the upward scan\<close>
    have "\<exists>m. i \<le> m \<and> m \<le> hi \<and> \<not> bel (arr ! nat m)"
    proof (rule disjE [OF S])
      assume "\<exists>m. i \<le> m \<and> m \<le> j \<and> key (arr ! nat m) = p"
      then obtain m where "i \<le> m" "m \<le> j" "key (arr ! nat m) = p" by blast
      then show ?thesis using "1.prems"(6) bel by (intro exI [of _ m]) auto
    next
      assume a: "lo < i \<and> j < hi"
      then have "p \<le> key (arr ! nat (j + 1))"
        using R [rule_format, of "nat (j + 1)"] True i0 by simp
      then show ?thesis using a True bel by (intro exI [of _ "j + 1"]) auto
    qed
    then obtain mu where mu: "i \<le> mu" "mu \<le> hi" "\<not> bel (arr ! nat mu)" by blast
    have "mu < int (length arr)" using mu(2) "1.prems"(4) by simp
    from scanUp_stops [of i mu arr bel, OF i0 mu(1) this mu(3)]
    obtain i1 where u: "scanUp bel arr i = Some i1" by auto
    \<comment> \<open>a sentinel stops the downward scan\<close>
    have "\<exists>m. lo \<le> m \<and> m \<le> j \<and> \<not> abv (arr ! nat m)"
    proof (rule disjE [OF S])
      assume "\<exists>m. i \<le> m \<and> m \<le> j \<and> key (arr ! nat m) = p"
      then obtain m where "i \<le> m" "m \<le> j" "key (arr ! nat m) = p" by blast
      then show ?thesis using "1.prems"(5) abv by (intro exI [of _ m]) auto
    next
      assume a: "lo < i \<and> j < hi"
      then have "key (arr ! nat (i - 1)) \<le> p"
        using L [rule_format, of "nat (i - 1)"] True "1.prems"(3) by simp
      then show ?thesis using a True abv by (intro exI [of _ "i - 1"]) auto
    qed
    then obtain md where md: "lo \<le> md" "md \<le> j" "\<not> abv (arr ! nat md)" by blast
    have "0 \<le> md" using md(1) "1.prems"(3) by simp
    from scanDown_stops [of md j arr abv, OF this md(2) jl md(3)]
    obtain j1 where d: "scanDown abv arr j = Some j1" by auto
    note su = scanUp_Some [OF u] and sd = scanDown_Some [OF d]
    have b: "i \<le> i1" "i1 < int (length arr)" "j1 \<le> j" "0 \<le> j1" "0 \<le> i1"
      using su sd i0 by simp_all
    have ki1: "p \<le> key (arr ! nat i1)" using su bel by auto
    have kj1: "key (arr ! nat j1) \<le> p" using sd abv by auto
    have lowI: "key (arr ! n) \<le> p" if "lo \<le> int n" "int n < i1" for n
    proof (cases "int n < i")
      case True
      then show ?thesis using L that by simp
    next
      case False
      then have "bel (arr ! nat (int n))" using su that by (meson not_le_imp_less)
      then show ?thesis using bel by simp
    qed
    have highI: "p \<le> key (arr ! n)" if "j1 < int n" "int n \<le> hi" for n
    proof (cases "j < int n")
      case True
      then show ?thesis using R that by simp
    next
      case False
      then have "abv (arr ! nat (int n))" using sd that by (meson not_le_imp_less)
      then show ?thesis using abv by simp
    qed
    show ?thesis
    proof (cases "i1 \<le> j1")
      case sw: True
      let ?arr2 = "quickSwap arr i1 j1"
      have bb: "0 \<le> i1" "i1 < int (length arr)" "0 \<le> j1" "j1 < int (length arr)"
        using b jl by simp_all
      have L2: "\<forall>n. lo \<le> int n \<and> int n < i1 + 1 \<longrightarrow> key (?arr2 ! n) \<le> p"
      proof (intro allI impI)
        fix n assume n: "lo \<le> int n \<and> int n < i1 + 1"
        then have nl: "n < length arr" using b by simp
        show "key (?arr2 ! n) \<le> p"
        proof (cases "int n = i1")
          case True
          then show ?thesis using nth_quickSwap [OF bb nl] kj1 by auto
        next
          case False
          then have "int n < i1" using n by simp
          then show ?thesis using nth_quickSwap [OF bb nl] lowI [of n] n sw kj1
            by (auto split: if_splits)
        qed
      qed
      have R2: "\<forall>n. j1 - 1 < int n \<and> int n \<le> hi \<longrightarrow> p \<le> key (?arr2 ! n)"
      proof (intro allI impI)
        fix n assume n: "j1 - 1 < int n \<and> int n \<le> hi"
        then have nl: "n < length arr" using "1.prems"(4) by simp
        show "p \<le> key (?arr2 ! n)"
        proof (cases "int n = j1")
          case True
          then show ?thesis using nth_quickSwap [OF bb nl] ki1 by auto
        next
          case False
          then have "j1 < int n" using n by simp
          then show ?thesis using nth_quickSwap [OF bb nl] highI [of n] n sw ki1
            by (auto split: if_splits)
        qed
      qed
      have "\<exists>arr' i' j'. partitionLoop bel abv ?arr2 (i1 + 1) (j1 - 1) = Some (arr', i', j') \<and>
           j' < i' \<and> (\<forall>n. lo \<le> int n \<and> int n < i' \<longrightarrow> key (arr' ! n) \<le> p) \<and>
           (\<forall>n. j' < int n \<and> int n \<le> hi \<longrightarrow> p \<le> key (arr' ! n))"
        by (rule "1.IH"(1) [OF True u d sw bel abv "1.prems"(3) _ _ _ L2 R2])
           (use b "1.prems" in auto)
      then show ?thesis using True u d sw
        by (simp add: partitionLoop.simps [of bel abv arr i j])
    next
      case nsw: False
      have "partitionLoop bel abv arr i j = Some (arr, i1, j1)"
        using True u d nsw
        by (simp add: partitionLoop.simps [of bel abv arr i j]
            partitionLoop.simps [of bel abv arr i1 j1])
      then show ?thesis using nsw lowI highI by auto
    qed
  qed
qed


lemma range_transfer:
  assumes len: "length ys = length xs" and ms: "mset ys = mset xs"
    and out: "\<forall>n. int n < lo \<or> hi < int n \<longrightarrow> ys ! n = xs ! n"
    and hi: "hi < int (length xs)"
    and all: "\<forall>n. lo \<le> int n \<and> int n \<le> hi \<longrightarrow> P (xs ! n)"
    and n: "lo \<le> int n" "int n \<le> hi"
  shows "P (ys ! n)"
proof (rule ccontr)
  assume neg: "\<not> P (ys ! n)"
  let ?A = "{i. i < length xs \<and> \<not> P (xs ! i)}"
  let ?B = "{i. i < length ys \<and> \<not> P (ys ! i)}"
  have sub: "?A \<subseteq> ?B"
  proof
    fix i assume "i \<in> ?A"
    then have i: "i < length xs" "\<not> P (xs ! i)" by simp_all
    then have "int i < lo \<or> hi < int i" using all by (meson not_le_imp_less)
    then have "ys ! i = xs ! i" using out by blast
    then show "i \<in> ?B" using i len by simp
  qed
  have "n \<in> ?B" using neg n hi len by simp
  moreover have "n \<notin> ?A" using all n by simp
  ultimately have "?A \<subset> ?B" using sub by blast
  moreover have "finite ?B" by simp
  ultimately have "card ?A < card ?B" by (rule psubset_card_mono [rotated])
  moreover have "card ?A = length (filter (\<lambda>x. \<not> P x) xs)"
    by (simp add: length_filter_conv_card)
  moreover have "card ?B = length (filter (\<lambda>x. \<not> P x) ys)"
    by (simp add: length_filter_conv_card)
  moreover have "length (filter (\<lambda>x. \<not> P x) ys) = length (filter (\<lambda>x. \<not> P x) xs)"
  proof -
    have "mset (filter (\<lambda>x. \<not> P x) ys) = mset (filter (\<lambda>x. \<not> P x) xs)"
      using ms by (simp only: mset_filter)
    then show ?thesis by (rule mset_eq_length)
  qed
  ultimately show False by simp
qed

lemma quickSortKey_correct:
  fixes key :: "'a \<Rightarrow> 'k::linorder"
  shows "0 \<le> lo \<Longrightarrow> hi < int (length arr) \<Longrightarrow>
   \<exists>arr'. quickSortKey key arr lo hi = Some arr' \<and> length arr' = length arr \<and>
     mset arr' = mset arr \<and> sameOutside arr' arr lo hi \<and> sortedOn key arr' lo hi"
proof (induction key arr lo hi rule: quickSortKey.induct)
  case (1 key arr lo hi)
  show ?case
  proof (cases "hi \<le> lo")
    case True
    have "sortedOn key arr lo hi"
      unfolding sortedOn_def using True by (metis dual_order.trans nat_int nat_le_iff order_antisym order_refl)
    then show ?thesis using True
      by (simp add: quickSortKey.simps [of key arr lo hi] sameOutside_def)
  next
    case False
    define mid where "mid = (lo + hi) sdiv 2"
    have mid: "lo \<le> mid" "mid \<le> hi" "0 \<le> mid"
      using False "1.prems"(1) by (auto simp: mid_def signed_divide_int_def sgn_if)
    define pivot where "pivot = arr ! nat mid"
    define p where "p = key pivot"
    have rd: "readAt arr ((lo + hi) sdiv 2) = Some pivot"
      using mid "1.prems"(2) by (simp add: readAt_def pivot_def mid_def)
    have "\<exists>arr1 i j. partitionLoop (\<lambda>s. key s < p) (\<lambda>s. p < key s) arr lo hi = Some (arr1, i, j) \<and>
        j < i \<and> (\<forall>n. lo \<le> int n \<and> int n < i \<longrightarrow> key (arr1 ! n) \<le> p) \<and>
        (\<forall>n. j < int n \<and> int n \<le> hi \<longrightarrow> p \<le> key (arr1 ! n))"
    proof (rule partition_key [OF refl refl "1.prems"(1,2)])
      show "(\<exists>m. lo \<le> m \<and> m \<le> hi \<and> key (arr ! nat m) = p) \<or> (lo < lo \<and> hi < hi)"
        using mid by (auto simp: p_def pivot_def)
    qed auto
    then obtain arr1 i j where
      pl: "partitionLoop (\<lambda>s. key s < p) (\<lambda>s. p < key s) arr lo hi = Some (arr1, i, j)"
      and ji: "j < i"
      and L1: "\<forall>n. lo \<le> int n \<and> int n < i \<longrightarrow> key (arr1 ! n) \<le> p"
      and R1: "\<forall>n. j < int n \<and> int n \<le> hi \<longrightarrow> p \<le> key (arr1 ! n)"
      by blast
    have bnd: "lo < i" "j < hi"
      using sort_step_bounds [OF False rd _ _ pl] by (simp_all add: p_def)
    from partition_frame [OF pl]
    have fr: "length arr1 = length arr" "mset arr1 = mset arr" "sameOutside arr1 arr lo hi"
      by (simp_all add: sameOutside_def)
    have pl': "partitionLoop (\<lambda>s. key s < key pivot) (\<lambda>s. key pivot < key s) arr lo hi
        = Some (arr1, i, j)"
      using pl by (simp add: p_def)
    \<comment> \<open>the left recursive call\<close>
    have "\<exists>arr2. (if lo < j then quickSortKey key arr1 lo j else Some arr1) = Some arr2 \<and>
        length arr2 = length arr1 \<and> mset arr2 = mset arr1 \<and>
        sameOutside arr2 arr1 lo j \<and> sortedOn key arr2 lo j"
    proof (cases "lo < j")
      case True
      have "j < int (length arr1)" using bnd "1.prems"(2) fr by simp
      from "1.IH"(1) [OF False rd pl' refl refl True "1.prems"(1) this] True
      show ?thesis by simp
    next
      case nl: False
      have "sortedOn key arr1 lo j"
        unfolding sortedOn_def using nl
        by (metis dual_order.trans nat_int nat_le_iff order_antisym order_refl not_le_imp_less)
      then show ?thesis using nl by (simp add: sameOutside_def)
    qed
    then obtain arr2 where
      c2: "(if lo < j then quickSortKey key arr1 lo j else Some arr1) = Some arr2"
      and f2: "length arr2 = length arr1" "mset arr2 = mset arr1"
        "sameOutside arr2 arr1 lo j" "sortedOn key arr2 lo j"
      by blast
    \<comment> \<open>the right recursive call\<close>
    have "\<exists>arr3. (if i < hi then quickSortKey key arr2 i hi else Some arr2) = Some arr3 \<and>
        length arr3 = length arr2 \<and> mset arr3 = mset arr2 \<and>
        sameOutside arr3 arr2 i hi \<and> sortedOn key arr3 i hi"
    proof (cases "i < hi")
      case True
      have "0 \<le> i" "hi < int (length arr2)" using bnd "1.prems" fr f2 by simp_all
      from "1.IH"(2) [OF False rd pl' refl refl c2 True this] True
      show ?thesis by simp
    next
      case nl: False
      have "sortedOn key arr2 i hi"
        unfolding sortedOn_def using nl
        by (metis dual_order.trans nat_int nat_le_iff order_antisym order_refl not_le_imp_less)
      then show ?thesis using nl by (simp add: sameOutside_def)
    qed
    then obtain arr3 where
      c3: "(if i < hi then quickSortKey key arr2 i hi else Some arr2) = Some arr3"
      and f3: "length arr3 = length arr2" "mset arr3 = mset arr2"
        "sameOutside arr3 arr2 i hi" "sortedOn key arr3 i hi"
      by blast
    have res: "quickSortKey key arr lo hi = Some arr3"
      using False rd pl' c2 c3 by (simp add: quickSortKey.simps [of key arr lo hi])
    \<comment> \<open>the three regions of the result\<close>
    have left2: "key (arr2 ! n) \<le> p" if "lo \<le> int n" "int n \<le> j" for n
    proof (rule range_transfer [OF f2(1,2) _ _ _ that])
      show "\<forall>n. int n < lo \<or> j < int n \<longrightarrow> arr2 ! n = arr1 ! n"
        using f2(3) by (simp add: sameOutside_def)
      show "j < int (length arr1)" using bnd "1.prems"(2) fr by simp
      show "\<forall>n. lo \<le> int n \<and> int n \<le> j \<longrightarrow> key (arr1 ! n) \<le> p" using L1 ji by simp
    qed
    have low3: "key (arr3 ! n) \<le> p" if "lo \<le> int n" "int n < i" for n
    proof -
      have e: "arr3 ! n = arr2 ! n" using f3(3) that by (simp add: sameOutside_def)
      show ?thesis
      proof (cases "int n \<le> j")
        case True
        then show ?thesis using left2 that e by simp
      next
        case False
        then have "arr2 ! n = arr1 ! n" using f2(3) by (simp add: sameOutside_def)
        then show ?thesis using e L1 that by simp
      qed
    qed
    have high3: "p \<le> key (arr3 ! n)" if "j < int n" "int n \<le> hi" for n
    proof (cases "i \<le> int n")
      case True
      show ?thesis
      proof (rule range_transfer [OF f3(1,2) _ _ _ True that(2)])
        show "\<forall>n. int n < i \<or> hi < int n \<longrightarrow> arr3 ! n = arr2 ! n"
          using f3(3) by (simp add: sameOutside_def)
        show "hi < int (length arr2)" using "1.prems"(2) fr f2 by simp
        show "\<forall>n. i \<le> int n \<and> int n \<le> hi \<longrightarrow> p \<le> key (arr2 ! n)"
        proof (intro allI impI)
          fix n assume n: "i \<le> int n \<and> int n \<le> hi"
          then have "arr2 ! n = arr1 ! n" using f2(3) ji by (simp add: sameOutside_def)
          then show "p \<le> key (arr2 ! n)" using R1 n ji by simp
        qed
      qed
    next
      case False
      then have "arr3 ! n = arr2 ! n" using f3(3) by (simp add: sameOutside_def)
      moreover have "arr2 ! n = arr1 ! n" using f2(3) that by (simp add: sameOutside_def)
      ultimately show ?thesis using R1 that by simp
    qed
    have srt: "sortedOn key arr3 lo hi"
      unfolding sortedOn_def
    proof (intro allI impI)
      fix m n assume mn: "lo \<le> int m \<and> m \<le> n \<and> int n \<le> hi"
      consider (left) "int n \<le> j" | (right) "i \<le> int m" | (across) "int m < i" "j < int n"
        by linarith
      then show "key (arr3 ! m) \<le> key (arr3 ! n)"
      proof cases
        case left
        then have "arr3 ! m = arr2 ! m" "arr3 ! n = arr2 ! n"
          using f3(3) mn ji by (simp_all add: sameOutside_def)
        then show ?thesis using f2(4) mn left by (simp add: sortedOn_def)
      next
        case right
        then show ?thesis using f3(4) mn by (simp add: sortedOn_def)
      next
        case across
        have "key (arr3 ! m) \<le> p" using low3 [of m] mn across by simp
        moreover have "p \<le> key (arr3 ! n)" using high3 [of n] mn across by simp
        ultimately show ?thesis by simp
      qed
    qed
    have out: "sameOutside arr3 arr lo hi"
      using f3(3) f2(3) fr(3) bnd by (auto simp: sameOutside_def)
    show ?thesis using res srt out f3 f2 fr by simp
  qed
qed

lemma quickSortKey_whole:
  fixes key :: "'a \<Rightarrow> 'k::linorder"
  shows "\<exists>arr'. quickSortKey key arr 0 (int (length arr) - 1) = Some arr' \<and>
           mset arr' = mset arr \<and> sorted (map key arr')"
proof -
  from quickSortKey_correct [of 0 "int (length arr) - 1" arr key]
  obtain arr' where r: "quickSortKey key arr 0 (int (length arr) - 1) = Some arr'"
    "length arr' = length arr" "mset arr' = mset arr"
    "sortedOn key arr' 0 (int (length arr) - 1)"
    by auto
  have "sorted (map key arr')"
    unfolding sorted_iff_nth_mono using r(2,4) by (auto simp: sortedOn_def)
  then show ?thesis using r by simp
qed

text \<open>
  C5: sorting a snapshot by roll, \<^verbatim>\<open>quickSortRoll(arr, 0, n-1)\<close>, returns (no read leaves
  the array), and the result is a permutation of the snapshot in which the rolls are
  non-decreasing under \<^verbatim>\<open>strcmp\<close>, the lexicographic bytewise comparison.
\<close>

theorem C5_sortByRoll:
  "\<exists>S'. quickSortRoll S 0 (int (length S) - 1) = Some S' \<and> mset S' = mset S \<and>
         sorted_wrt (\<lambda>a b. strcmp (getRoll a) (getRoll b) \<le> 0) S' \<and>
         sorted (map getRoll S')"
proof -
  from quickSortKey_whole [of getRoll S]
  obtain S' where r: "quickSortKey getRoll S 0 (int (length S) - 1) = Some S'"
    "mset S' = mset S" "sorted (map getRoll S')" by blast
  have "sorted_wrt (\<lambda>a b. strcmp (getRoll a) (getRoll b) \<le> 0) S'"
    using r(3) by (simp add: sorted_map strcmp_le)
  then show ?thesis using r by (simp add: quickSortRoll_key)
qed

theorem C5_sortByRoll_witness:
  "quickSortRoll [s3, s2, s1] 0 (int (length [s3, s2, s1]) - 1) = Some [s3, s1, s2] \<and>
   map getRoll [s3, s1, s2] = [''19CS0999'', ''20CS1001'', ''21EC2001'']"
proof -
  have e: "quickSortRoll [s3, s2, s1] 0 2 = Some [s3, s1, s2]" by code_simp
  have n: "map getRoll [s3, s1, s2] = [''19CS0999'', ''20CS1001'', ''21EC2001'']"
    by (simp add: s1_def s2_def s3_def)
  from C5_sortByRoll [of "[s3, s2, s1]"] e n show ?thesis by simp
qed

text \<open>
  C3, as stated: sorting by roll twice gives exactly the sequence of records that sorting
  once gives, also with duplicate rolls. Two students with the same roll are swapped by
  every pass over an array that holds just the two.
\<close>

theorem C3_sortByRoll_not_idempotent:
  "quickSortRoll [mkStudent ''Asha Rao'' ''R1'' 1, mkStudent ''Bina Das'' ''R1'' 2] 0 1
     = Some [mkStudent ''Bina Das'' ''R1'' 2, mkStudent ''Asha Rao'' ''R1'' 1] \<and>
   quickSortRoll [mkStudent ''Bina Das'' ''R1'' 2, mkStudent ''Asha Rao'' ''R1'' 1] 0 1
     = Some [mkStudent ''Asha Rao'' ''R1'' 1, mkStudent ''Bina Das'' ''R1'' 2] \<and>
   [mkStudent ''Asha Rao'' ''R1'' 1, mkStudent ''Bina Das'' ''R1'' 2]
     \<noteq> [mkStudent ''Bina Das'' ''R1'' 2, mkStudent ''Asha Rao'' ''R1'' 1]"
proof -
  have a: "quickSortRoll [mkStudent ''Asha Rao'' ''R1'' 1, mkStudent ''Bina Das'' ''R1'' 2] 0 1
     = Some [mkStudent ''Bina Das'' ''R1'' 2, mkStudent ''Asha Rao'' ''R1'' 1]"
    by code_simp
  have b: "quickSortRoll [mkStudent ''Bina Das'' ''R1'' 2, mkStudent ''Asha Rao'' ''R1'' 1] 0 1
     = Some [mkStudent ''Asha Rao'' ''R1'' 1, mkStudent ''Bina Das'' ''R1'' 2]"
    by code_simp
  have c: "[mkStudent ''Asha Rao'' ''R1'' 1, mkStudent ''Bina Das'' ''R1'' 2]
     \<noteq> [mkStudent ''Bina Das'' ''R1'' 2, mkStudent ''Asha Rao'' ''R1'' 1]"
    by (simp add: mkStudent_def)
  from a b c show ?thesis by simp
qed

text \<open>
  C3, amended: for every snapshot, sorting by roll twice gives the same sequence of rolls
  as sorting once; when the rolls of the snapshot are pairwise distinct it gives exactly
  the same sequence of records.
\<close>

theorem C3_sortByRoll_twice:
  "\<exists>S1 S2. quickSortRoll S 0 (int (length S) - 1) = Some S1 \<and>
           quickSortRoll S1 0 (int (length S1) - 1) = Some S2 \<and>
           map getRoll S2 = map getRoll S1 \<and>
           (distinct (map getRoll S) \<longrightarrow> S2 = S1)"
proof -
  from quickSortKey_whole [of getRoll S]
  obtain S1 where r1: "quickSortKey getRoll S 0 (int (length S) - 1) = Some S1"
    "mset S1 = mset S" "sorted (map getRoll S1)" by blast
  from quickSortKey_whole [of getRoll S1]
  obtain S2 where r2: "quickSortKey getRoll S1 0 (int (length S1) - 1) = Some S2"
    "mset S2 = mset S1" "sorted (map getRoll S2)" by blast
  have "mset (map getRoll S2) = mset (map getRoll S1)" using r2(2) by simp
  then have "sort (map getRoll S1) = map getRoll S2" using r2(3) by (rule properties_for_sort)
  moreover have "sort (map getRoll S1) = map getRoll S1" using r1(3) by (simp add: sort_key_id_if_sorted)
  ultimately have keys: "map getRoll S2 = map getRoll S1" by simp
  have "S2 = S1" if d: "distinct (map getRoll S)"
  proof -
    have "mset (map getRoll S1) = mset (map getRoll S)" using r1(2) by simp
    then have "distinct (map getRoll S1)" using d by (metis mset_eq_imp_distinct_iff)
    then have "inj_on getRoll (set S1)" by (simp add: distinct_map)
    moreover have "set S2 = set S1" using r2(2) by (rule mset_eq_setD)
    ultimately have "inj_on getRoll (set S2 \<union> set S1)" by simp
    from inj_on_map_eq_map [OF this] keys show ?thesis by simp
  qed
  then show ?thesis using r1(1) r2(1) keys by (simp add: quickSortRoll_key)
qed

theorem C3_sortByRoll_twice_witness:
  "distinct (map getRoll [s3, s2, s1]) \<and>
   quickSortRoll [s3, s2, s1] 0 2 = Some [s3, s1, s2] \<and>
   quickSortRoll [s3, s1, s2] 0 2 = Some [s3, s1, s2]"
proof -
  have d: "distinct (map getRoll [s3, s2, s1])" by (simp add: s1_def s2_def s3_def)
  have e: "quickSortRoll [s3, s2, s1] 0 2 = Some [s3, s1, s2]" by code_simp
  from C3_sortByRoll_twice [of "[s3, s2, s1]"] d e show ?thesis by auto
qed

text \<open>
  C1: \<^verbatim>\<open>quickSortMarks\<close> orders by the mark and breaks ties by ascending roll. The sort
  compares the marks only and never calls \<^verbatim>\<open>cmpByMarksPtrFactory\<close>, the comparator with
  the tie-breaker: two students with equal midterm marks and rolls \<^verbatim>\<open>R1\<close>, \<^verbatim>\<open>R2\<close> come
  out as \<^verbatim>\<open>R2\<close>, \<^verbatim>\<open>R1\<close>, an order that the comparator itself rejects.
\<close>

theorem C1_equal_marks_not_by_roll:
  "quickSortMarks [mkStudent ''Asha Rao'' ''R1'' 10, mkStudent ''Bina Das'' ''R2'' 10] 0 1 MC_MID
     = Some [mkStudent ''Bina Das'' ''R2'' 10, mkStudent ''Asha Rao'' ''R1'' 10] \<and>
   getComponent (mkStudent ''Bina Das'' ''R2'' 10) MC_MID
     = getComponent (mkStudent ''Asha Rao'' ''R1'' 10) MC_MID \<and>
   strcmp (getRoll (mkStudent ''Bina Das'' ''R2'' 10)) (getRoll (mkStudent ''Asha Rao'' ''R1'' 10)) > 0 \<and>
   cmpByMarksPtrFactory (mkStudent ''Bina Das'' ''R2'' 10) (mkStudent ''Asha Rao'' ''R1'' 10) MC_MID > 0"
proof -
  have a: "quickSortMarks [mkStudent ''Asha Rao'' ''R1'' 10, mkStudent ''Bina Das'' ''R2'' 10] 0 1 MC_MID
     = Some [mkStudent ''Bina Das'' ''R2'' 10, mkStudent ''Asha Rao'' ''R1'' 10]"
    by code_simp
  have b: "strcmp ''R2'' ''R1'' > 0" by (simp add: code_def)
  show ?thesis using a b by (simp add: mkStudent_def cmpByMarksPtrFactory_def)
qed

text \<open>What \<^verbatim>\<open>quickSortMarks\<close> does achieve: a permutation ordered by the mark.\<close>

lemma quickSortMarks_sorted:
  "\<exists>S'. quickSortMarks S 0 (int (length S) - 1) mc = Some S' \<and> mset S' = mset S \<and>
         sorted (map (\<lambda>s. getComponent s mc) S')"
  using quickSortKey_whole [of "\<lambda>s. getComponent s mc" S] by (simp add: quickSortMarks_key)

text \<open>
  C10: both sorts are total functions (their definitions come with a termination proof
  on the width \<open>hi - lo\<close> of the range), and on every range inside the array they return
  an array, without a read outside it. When \<open>lo < hi\<close>, the pivot is read, the partition
  loop ends, and the two recursive calls act on the ranges \<open>[lo, j]\<close> and \<open>[i, hi]\<close>, both
  strictly narrower than \<open>[lo, hi]\<close>.
\<close>

theorem C10_sorts_terminate:
  assumes "0 \<le> lo" and "hi < int (length arr)"
  shows "(\<exists>r. quickSortRoll arr lo hi = Some r) \<and>
         (\<exists>r. quickSortMarks arr lo hi mc = Some r) \<and>
         (lo < hi \<longrightarrow>
            (\<exists>pivot arr1 i j.
               readAt arr ((lo + hi) sdiv 2) = Some pivot \<and>
               partitionLoop (\<lambda>s. strcmp (getRoll s) (getRoll pivot) < 0)
                 (\<lambda>s. strcmp (getRoll s) (getRoll pivot) > 0) arr lo hi = Some (arr1, i, j) \<and>
               j - lo < hi - lo \<and> hi - i < hi - lo)) \<and>
         (lo < hi \<longrightarrow>
            (\<exists>pivot arr1 i j.
               readAt arr ((lo + hi) sdiv 2) = Some pivot \<and>
               partitionLoop (\<lambda>s. getComponent s mc < getComponent pivot mc)
                 (\<lambda>s. getComponent s mc > getComponent pivot mc) arr lo hi = Some (arr1, i, j) \<and>
               j - lo < hi - lo \<and> hi - i < hi - lo))"
proof -
  have step: "\<exists>pivot arr1 i j.
               readAt arr ((lo + hi) sdiv 2) = Some pivot \<and>
               partitionLoop (\<lambda>s. key s < key pivot) (\<lambda>s. key pivot < key s) arr lo hi
                 = Some (arr1, i, j) \<and>
               j - lo < hi - lo \<and> hi - i < hi - lo"
    if "lo < hi" for key :: "Student \<Rightarrow> 'k::linorder"
  proof -
    define mid where "mid = (lo + hi) sdiv 2"
    have mid: "lo \<le> mid" "mid \<le> hi" "0 \<le> mid"
      using that assms(1) by (auto simp: mid_def signed_divide_int_def sgn_if)
    define pivot where "pivot = arr ! nat mid"
    have rd: "readAt arr ((lo + hi) sdiv 2) = Some pivot"
      using mid assms(2) by (simp add: readAt_def pivot_def mid_def)
    have "\<exists>arr1 i j. partitionLoop (\<lambda>s. key s < key pivot) (\<lambda>s. key pivot < key s) arr lo hi
          = Some (arr1, i, j) \<and> j < i \<and>
        (\<forall>n. lo \<le> int n \<and> int n < i \<longrightarrow> key (arr1 ! n) \<le> key pivot) \<and>
        (\<forall>n. j < int n \<and> int n \<le> hi \<longrightarrow> key pivot \<le> key (arr1 ! n))"
    proof (rule partition_key [OF refl refl assms(1,2)])
      show "(\<exists>m. lo \<le> m \<and> m \<le> hi \<and> key (arr ! nat m) = key pivot) \<or> (lo < lo \<and> hi < hi)"
        using mid by (auto simp: pivot_def)
    qed auto
    then obtain arr1 i j where
      pl: "partitionLoop (\<lambda>s. key s < key pivot) (\<lambda>s. key pivot < key s) arr lo hi = Some (arr1, i, j)"
      by blast
    have "lo < i \<and> j < hi"
      using sort_step_bounds [OF _ rd _ _ pl] that by simp
    then show ?thesis using rd pl by auto
  qed
  have r: "\<exists>r. quickSortRoll arr lo hi = Some r"
    using quickSortKey_correct [OF assms, of getRoll] by (auto simp: quickSortRoll_key)
  have m: "\<exists>r. quickSortMarks arr lo hi mc = Some r"
    using quickSortKey_correct [OF assms, of "\<lambda>s. getComponent s mc"]
    by (auto simp: quickSortMarks_key)
  show ?thesis
    using r m step [of getRoll] step [of "\<lambda>s. getComponent s mc"]
    by (simp add: strcmp_lt strcmp_gt)
qed

theorem C10_sorts_terminate_witness:
  "(0::int) \<le> 0 \<and> (2::int) < int (length [s3, s2, s1]) \<and> (0::int) < 2 \<and>
   (\<exists>r. quickSortRoll [s3, s2, s1] 0 2 = Some r) \<and>
   (\<exists>r. quickSortMarks [s3, s2, s1] 0 2 MC_MID = Some r)"
proof -
  have h: "(0::int) \<le> 0" "(2::int) < int (length [s3, s2, s1])" by simp_all
  from C10_sorts_terminate [OF h, of MC_MID] h show ?thesis by simp
qed


end
